theory Spec2Isabelle
  imports Complex_Main "HOL-Library.Char_ord" "HOL-Library.Word" "HOL-Library.Multiset"
    "HOL-Library.Log_Nat"
begin

section \<open>The bigram counter of makemore.py\<close>

text \<open>
  The script reads a list of words, builds a character vocabulary, counts adjacent
  character pairs into a 27 by 27 tensor of 32-bit integers and normalises row 0 of
  that tensor. The input of the model is the list \<open>words\<close> that
  \<^verbatim>\<open>open(...).read().splitlines()\<close> yields; reading the file and the calls
  of the plotting library are effects outside the model.
\<close>

subsection \<open>Python values: errors and dictionaries\<close>

datatype error = KeyError | IndexError

text \<open>
  A Python dictionary keeps its keys in insertion order, and storing under a key that
  is already present replaces the value in place. It is an association list whose
  keys are pairwise different.
\<close>

type_synonym ('k, 'v) dict = "('k \<times> 'v) list"

fun setitem :: "('k, 'v) dict \<Rightarrow> 'k \<Rightarrow> 'v \<Rightarrow> ('k, 'v) dict" where
  "setitem [] k v = [(k, v)]"
| "setitem ((k', v') # d) k v =
     (if k' = k then (k', v) # d else (k', v') # setitem d k v)"

definition getitem :: "('k, 'v) dict \<Rightarrow> 'k \<Rightarrow> error + 'v" where
  "getitem d k = (case map_of d k of None \<Rightarrow> Inl KeyError | Some v \<Rightarrow> Inr v)"

text \<open>A dictionary comprehension stores its pairs one after the other.\<close>

definition dict_of :: "('k \<times> 'v) list \<Rightarrow> ('k, 'v) dict" where
  "dict_of kvs = fold (\<lambda>(k, v) d. setitem d k v) kvs []"

subsection \<open>Vocabulary builder\<close>

text \<open>
  \<^verbatim>\<open>chars = sorted(list(set("".join(words))))\<close>: the distinct characters of the
  corpus in ascending order of their code points. Characters are the 8-bit characters
  of HOL, ordered by their code as Python orders one-character strings.
\<close>

definition chars :: "string list \<Rightarrow> char list" where
  "chars ws = sort (remdups (concat ws))"

text \<open>
  \<^verbatim>\<open>stoi = { x:(i+1) for i, x in enumerate(chars)}; stoi["."] = 0\<close>
\<close>

definition stoi :: "string list \<Rightarrow> (char, nat) dict" where
  "stoi ws =
     setitem (dict_of (map (\<lambda>(i, x). (x, i + 1)) (enumerate 0 (chars ws)))) (CHR ''.'') 0"

text \<open>\<^verbatim>\<open>itos = { i:s for s,i in stoi.items() }\<close>\<close>

definition itos :: "string list \<Rightarrow> (nat, char) dict" where
  "itos ws = dict_of (map (\<lambda>(s, i). (i, s)) (stoi ws))"

subsection \<open>Count table\<close>

text \<open>
  \<^verbatim>\<open>N = torch.zeros((27, 27), dtype=torch.int32)\<close>: the cells are 32-bit machine
  integers, so \<open>+\<close> wraps around; \<open>sint\<close> reads a cell as the signed number the
  tensor shows.
\<close>

type_synonym int32 = "32 word"
type_synonym tensor = "int32 list list"

definition zeros :: "nat \<Rightarrow> nat \<Rightarrow> tensor" where
  "zeros m n = replicate m (replicate n 0)"

text \<open>
  \<^verbatim>\<open>N[a, b] += 1\<close> with non-negative indices: an index outside the tensor
  raises IndexError.
\<close>

definition iadd :: "tensor \<Rightarrow> nat \<Rightarrow> nat \<Rightarrow> error + tensor" where
  "iadd N a b =
     (if a < length N \<and> b < length (N ! a)
      then Inr (N[a := (N ! a)[b := N ! a ! b + 1]])
      else Inl IndexError)"

subsection \<open>Counter\<close>

text \<open>
  The inner loop \<^verbatim>\<open>for i in range(len(c))[:-1]: N[stoi[c[i]], stoi[c[i+1]]] += 1\<close>,
  run over the list of positions it visits.
\<close>

fun count_pairs :: "(char, nat) dict \<Rightarrow> string \<Rightarrow> nat list \<Rightarrow> tensor \<Rightarrow> error + tensor" where
  "count_pairs st c [] N = Inr N"
| "count_pairs st c (i # is) N =
     (case getitem st (c ! i) of
        Inl e \<Rightarrow> Inl e
      | Inr a \<Rightarrow>
          (case getitem st (c ! (i + 1)) of
             Inl e \<Rightarrow> Inl e
           | Inr b \<Rightarrow>
               (case iadd N a b of
                  Inl e \<Rightarrow> Inl e
                | Inr N' \<Rightarrow> count_pairs st c is N')))"

text \<open>
  The outer loop \<^verbatim>\<open>for w in words[:]: c = ["."] + list(w) + ["."]; ...\<close>
\<close>

fun count_words :: "(char, nat) dict \<Rightarrow> string list \<Rightarrow> tensor \<Rightarrow> error + tensor" where
  "count_words st [] N = Inr N"
| "count_words st (w # ws) N =
     (let c = [CHR ''.''] @ w @ [CHR ''.'']
      in case count_pairs st c [0..<length c - 1] N of
           Inl e \<Rightarrow> Inl e
         | Inr N' \<Rightarrow> count_words st ws N')"

text \<open>The script up to the end of the counting pass.\<close>

definition counter :: "string list \<Rightarrow> error + tensor" where
  "counter ws = count_words (stoi ws) ws (zeros 27 27)"

subsection \<open>Drawing\<close>

text \<open>
  \<^verbatim>\<open>for i in range(27): for j in range(27): c = itos[i] + itos[j]; ...\<close> The two
  lookups in \<open>itos\<close> raise KeyError for an index that no character has. What is handed
  to the plotting library is the label \<open>c\<close> and the count \<^verbatim>\<open>N[i, j].item()\<close> of
  every cell; the plotting itself is an effect outside the model.
\<close>

definition item :: "tensor \<Rightarrow> nat \<Rightarrow> nat \<Rightarrow> error + int" where
  "item N i j =
     (if i < length N \<and> j < length (N ! i) then Inr (sint (N ! i ! j)) else Inl IndexError)"

fun draw_row :: "(nat, char) dict \<Rightarrow> tensor \<Rightarrow> nat \<Rightarrow> nat list \<Rightarrow> error + (string \<times> int) list" where
  "draw_row it N i [] = Inr []"
| "draw_row it N i (j # js) =
     (case getitem it i of
        Inl e \<Rightarrow> Inl e
      | Inr a \<Rightarrow>
          (case getitem it j of
             Inl e \<Rightarrow> Inl e
           | Inr b \<Rightarrow>
               (case item N i j of
                  Inl e \<Rightarrow> Inl e
                | Inr n \<Rightarrow>
                    (case draw_row it N i js of
                       Inl e \<Rightarrow> Inl e
                     | Inr ts \<Rightarrow> Inr (([a] @ [b], n) # ts)))))"

fun draw_rows :: "(nat, char) dict \<Rightarrow> tensor \<Rightarrow> nat list \<Rightarrow> error + (string \<times> int) list" where
  "draw_rows it N [] = Inr []"
| "draw_rows it N (i # is) =
     (case draw_row it N i [0..<27] of
        Inl e \<Rightarrow> Inl e
      | Inr ts \<Rightarrow>
          (case draw_rows it N is of
             Inl e \<Rightarrow> Inl e
           | Inr us \<Rightarrow> Inr (ts @ us)))"

definition draw :: "(nat, char) dict \<Rightarrow> tensor \<Rightarrow> error + (string \<times> int) list" where
  "draw it N = draw_rows it N [0..<27]"

subsection \<open>Single-precision numbers\<close>

text \<open>
  \<^verbatim>\<open>N[0].float()\<close> is a tensor of IEEE 754 single-precision numbers. A finite number
  is given by its value, a rational; \<open>fl\<close> rounds a rational to the nearest number of the
  format, a multiple of \<open>2^e\<close> with a factor below \<open>2^24\<close> and \<open>e \<ge> -149\<close>, ties going to
  the even factor and magnitudes from \<open>2^128\<close> on to an infinity. The two zeros of the
  format are not told apart: the script divides by a sum only, and a sum of numbers
  converted from integers is never the negative zero.
\<close>

datatype float32 = Finite rat | NaN | PosInf | NegInf

definition pow2 :: "int \<Rightarrow> rat" where
  "pow2 e = (if 0 \<le> e then 2 ^ nat e else 1 / 2 ^ nat (- e))"

text \<open>The exponent \<open>k\<close> with \<open>2^k \<le> a < 2^(k+1)\<close>, for positive \<open>a\<close>.\<close>

definition binade :: "rat \<Rightarrow> int" where
  "binade a =
     (let (p, q) = quotient_of a; d = bitlen p - bitlen q
      in if pow2 d \<le> a then d else d - 1)"

definition round_even :: "rat \<Rightarrow> int" where
  "round_even r =
     (let f = \<lfloor>r\<rfloor>; d = r - of_int f
      in if d < 1 / 2 then f
         else if 1 / 2 < d then f + 1
         else if even f then f else f + 1)"

definition fl :: "rat \<Rightarrow> float32" where
  "fl q =
     (if q = 0 then Finite 0
      else
        let a = \<bar>q\<bar>;
            e = max (binade a - 23) (- 149);
            v = of_int (round_even (a / pow2 e)) * pow2 e
        in if 2 ^ 128 \<le> v then (if 0 < q then PosInf else NegInf)
           else Finite (if 0 < q then v else - v))"

text \<open>Addition and division of the format: the exact result, rounded.\<close>

fun fadd :: "float32 \<Rightarrow> float32 \<Rightarrow> float32" where
  "fadd (Finite a) (Finite b) = fl (a + b)"
| "fadd (Finite a) y = y"
| "fadd NaN y = NaN"
| "fadd PosInf y = (if y = NaN \<or> y = NegInf then NaN else PosInf)"
| "fadd NegInf y = (if y = NaN \<or> y = PosInf then NaN else NegInf)"

fun fdiv :: "float32 \<Rightarrow> float32 \<Rightarrow> float32" where
  "fdiv (Finite a) (Finite b) =
     (if b \<noteq> 0 then fl (a / b)
      else if a = 0 then NaN
      else if 0 < a then PosInf
      else NegInf)"
| "fdiv (Finite a) NaN = NaN"
| "fdiv (Finite a) y = Finite 0"
| "fdiv NaN y = NaN"
| "fdiv PosInf (Finite b) = (if 0 \<le> b then PosInf else NegInf)"
| "fdiv PosInf y = NaN"
| "fdiv NegInf (Finite b) = (if 0 \<le> b then NegInf else PosInf)"
| "fdiv NegInf y = NaN"

text \<open>
  \<^verbatim>\<open>p.sum()\<close> adds the entries of \<open>p\<close> with one rounding for each addition, in an
  order that the library chooses: \<open>summed A s\<close> holds when \<open>s\<close> is the result of adding
  the members of \<open>A\<close> in some order and grouping.
\<close>

inductive summed :: "float32 multiset \<Rightarrow> float32 \<Rightarrow> bool" where
  summed_empty: "summed {#} (Finite 0)"
| summed_single: "summed {#x#} x"
| summed_join:
    "summed A a \<Longrightarrow> summed B b \<Longrightarrow> A \<noteq> {#} \<Longrightarrow> B \<noteq> {#} \<Longrightarrow> summed (A + B) (fadd a b)"

subsection \<open>Probability extractor\<close>

text \<open>
  \<^verbatim>\<open>p = N[0].float(); p = p / p.sum()\<close>: every cell of row 0 is rounded to single
  precision, and every entry is divided by the sum of the entries. The division raises
  nothing. The result is the set of the vectors that the orders of summation give.
\<close>

definition to_float :: "int32 list \<Rightarrow> float32 list" where
  "to_float row = map (\<lambda>x. fl (of_int (sint x))) row"

definition prob :: "tensor \<Rightarrow> (error + float32 list) set" where
  "prob N =
     (case N of
        [] \<Rightarrow> {Inl IndexError}
      | row # _ \<Rightarrow>
          (let p = to_float row
           in {Inr (map (\<lambda>x. fdiv x s) p) | s. summed (mset p) s}))"

subsection \<open>The whole run\<close>

text \<open>
  Counting, drawing and extraction one after the other: the error that stops the run,
  or the vector \<open>p\<close> it ends with.
\<close>

definition script :: "string list \<Rightarrow> (error + float32 list) set" where
  "script ws =
     (case counter ws of
        Inl e \<Rightarrow> {Inl e}
      | Inr N \<Rightarrow>
          (case draw (itos ws) N of
             Inl e \<Rightarrow> {Inl e}
           | Inr texts \<Rightarrow> prob N))"

section \<open>What the specification counts\<close>

text \<open>
  The specification wraps every word as \<open>[boundary, c0, ..., ck, boundary]\<close> and
  counts, for a pair of indices, the positions of the wrapped sequences at which the
  character with index \<open>j\<close> immediately follows the character with index \<open>i\<close>.
\<close>

definition wrapped :: "string \<Rightarrow> string" where
  "wrapped w = CHR ''.'' # w @ [CHR ''.'']"

definition follows :: "(char, nat) dict \<Rightarrow> string \<Rightarrow> nat \<Rightarrow> nat \<Rightarrow> nat" where
  "follows st s i j =
     length (filter (\<lambda>k. getitem st (s ! k) = Inr i \<and> getitem st (s ! Suc k) = Inr j)
       [0..<length s - 1])"

definition bigram_count :: "(char, nat) dict \<Rightarrow> string list \<Rightarrow> nat \<Rightarrow> nat \<Rightarrow> nat" where
  "bigram_count st ws i j = (\<Sum>w\<leftarrow>ws. follows st (wrapped w) i j)"

text \<open>The number of transitions of a corpus: one per character plus one per word.\<close>

definition transitions :: "string list \<Rightarrow> nat" where
  "transitions ws = (\<Sum>w\<leftarrow>ws. length w + 1)"

text \<open>The sum of all cells of a tensor, each read as a signed integer.\<close>

definition total :: "tensor \<Rightarrow> int" where
  "total N = (\<Sum>row\<leftarrow>N. \<Sum>x\<leftarrow>row. sint x)"

section \<open>Notions used in the proofs\<close>

text \<open>The shape of the count table.\<close>

definition shaped :: "tensor \<Rightarrow> bool" where
  "shaped N \<longleftrightarrow> length N = 27 \<and> list_all (\<lambda>row. length row = 27) N"

text \<open>A character has an index, and that index addresses a row and column of the table.\<close>

definition known :: "(char, nat) dict \<Rightarrow> char \<Rightarrow> bool" where
  "known st x \<longleftrightarrow> (case getitem st x of Inl e \<Rightarrow> False | Inr a \<Rightarrow> True)"

definition in_table :: "(char, nat) dict \<Rightarrow> char \<Rightarrow> bool" where
  "in_table st x \<longleftrightarrow> (case getitem st x of Inl e \<Rightarrow> False | Inr a \<Rightarrow> a < 27)"

text \<open>The value of a finite number, its negation, and the unit of relative error.\<close>

fun val :: "float32 \<Rightarrow> rat" where
  "val (Finite v) = v"
| "val x = 0"

fun fneg :: "float32 \<Rightarrow> float32" where
  "fneg (Finite v) = Finite (- v)"
| "fneg NaN = NaN"
| "fneg PosInf = NegInf"
| "fneg NegInf = PosInf"

definition eps :: rat where
  "eps = 1 / 2 ^ 24"

text \<open>The pairs that the comprehension of \<open>stoi\<close> stores.\<close>

definition numbered :: "char list \<Rightarrow> (char \<times> nat) list" where
  "numbered cs = map (\<lambda>(i, x). (x, i + 1)) (enumerate 0 cs)"

section \<open>Dictionaries and the vocabulary\<close>

lemma map_of_setitem: "map_of (setitem d k v) = (map_of d)(k \<mapsto> v)"
  by (induction d k v rule: setitem.induct) (auto simp: fun_eq_iff)

lemma keys_setitem: "fst ` set (setitem d k v) = insert k (fst ` set d)"
  by (induction d k v rule: setitem.induct) auto

lemma values_setitem: "snd ` set (setitem d k v) \<subseteq> insert v (snd ` set d)"
  by (induction d k v rule: setitem.induct) auto

lemma distinct_keys_setitem:
  "distinct (map fst d) \<Longrightarrow> distinct (map fst (setitem d k v))"
  by (induction d k v rule: setitem.induct) (auto simp: keys_setitem)

lemma distinct_values_setitem:
  "distinct (map snd d) \<Longrightarrow> v \<notin> snd ` set d \<Longrightarrow> distinct (map snd (setitem d k v))"
proof (induction d k v rule: setitem.induct)
  case (1 k v)
  then show ?case by simp
next
  case (2 k' v' d k v)
  show ?case
  proof (cases "k' = k")
    case True
    with 2 show ?thesis by auto
  next
    case False
    have "v' \<notin> snd ` set (setitem d k v)"
      using values_setitem [of d k v] "2.prems" by auto
    with False 2 show ?thesis by auto
  qed
qed

lemma setitem_fresh: "k \<notin> fst ` set d \<Longrightarrow> setitem d k v = d @ [(k, v)]"
  by (induction d k v rule: setitem.induct) auto

lemma fold_setitem_distinct:
  "distinct (map fst (d @ kvs)) \<Longrightarrow> fold (\<lambda>(k, v) d. setitem d k v) kvs d = d @ kvs"
proof (induction kvs arbitrary: d)
  case Nil
  then show ?case by simp
next
  case (Cons kv kvs)
  obtain k v where kv: "kv = (k, v)" by (cases kv)
  have fresh: "k \<notin> fst ` set d" using Cons.prems kv by auto
  have "distinct (map fst ((d @ [(k, v)]) @ kvs))" using Cons.prems kv by auto
  from Cons.IH [OF this] show ?case by (simp add: kv setitem_fresh [OF fresh])
qed

lemma dict_of_distinct: "distinct (map fst kvs) \<Longrightarrow> dict_of kvs = kvs"
  using fold_setitem_distinct [of "[]" kvs] by (simp add: dict_of_def)

lemma getitem_Inr: "getitem d k = Inr v \<longleftrightarrow> map_of d k = Some v"
  by (simp add: getitem_def split: option.splits)

lemma keys_numbered: "map fst (numbered cs) = cs"
  by (simp add: numbered_def enumerate_eq_zip map_zip_map2 case_prod_unfold comp_def)

lemma values_numbered: "map snd (numbered cs) = map Suc [0..<length cs]"
proof -
  have "map snd (numbered cs) = map (Suc \<circ> fst) (zip [0..<length cs] cs)"
    by (simp add: numbered_def enumerate_eq_zip case_prod_unfold comp_def)
  also have "\<dots> = map Suc (map fst (zip [0..<length cs] cs))"
    by (simp only: map_map)
  also have "map fst (zip [0..<length cs] cs) = [0..<length cs]"
    by simp
  finally show ?thesis .
qed

lemma distinct_chars: "distinct (chars ws)"
  by (simp add: chars_def)

lemma set_chars: "set (chars ws) = set (concat ws)"
  by (simp add: chars_def)

lemma stoi_numbered: "stoi ws = setitem (numbered (chars ws)) (CHR ''.'') 0"
proof -
  have "dict_of (numbered (chars ws)) = numbered (chars ws)"
    by (rule dict_of_distinct) (simp add: keys_numbered distinct_chars)
  then show ?thesis
    unfolding stoi_def numbered_def by simp
qed

lemma distinct_keys_stoi: "distinct (map fst (stoi ws))"
  by (simp add: stoi_numbered distinct_keys_setitem keys_numbered distinct_chars)

lemma distinct_values_stoi: "distinct (map snd (stoi ws))"
proof -
  have "distinct (map snd (numbered (chars ws)))"
    by (simp add: values_numbered distinct_map)
  moreover have "0 \<notin> snd ` set (numbered (chars ws))"
    using values_numbered [of "chars ws"] by (metis (no_types, lifting) image_iff list.set_map nat.simps(3))
  ultimately show ?thesis
    by (simp add: stoi_numbered distinct_values_setitem)
qed

lemma keys_stoi: "fst ` set (stoi ws) = insert (CHR ''.'') (set (concat ws))"
proof -
  have "fst ` set (numbered (chars ws)) = set (chars ws)"
    by (metis keys_numbered list.set_map)
  then show ?thesis
    by (simp only: stoi_numbered keys_setitem set_chars)
qed

lemma stoi_boundary: "getitem (stoi ws) (CHR ''.'') = Inr 0"
  by (simp add: getitem_Inr stoi_numbered map_of_setitem)

lemma values_stoi_le: "(c, a) \<in> set (stoi ws) \<Longrightarrow> a \<le> length (chars ws)"
proof -
  assume "(c, a) \<in> set (stoi ws)"
  then have "a \<in> snd ` set (stoi ws)" by force
  then have "a \<in> insert 0 (snd ` set (numbered (chars ws)))"
    using values_setitem [of "numbered (chars ws)" "CHR ''.''" 0] by (auto simp: stoi_numbered)
  moreover have "snd ` set (numbered (chars ws)) = Suc ` {0..<length (chars ws)}"
    using values_numbered [of "chars ws"] by (metis list.set_map set_upt)
  ultimately show ?thesis by auto
qed

lemma getitem_stoi_mem: "getitem (stoi ws) c = Inr a \<longleftrightarrow> (c, a) \<in> set (stoi ws)"
  by (simp add: getitem_Inr distinct_keys_stoi)

lemma keys_swap: "map fst (map (\<lambda>(s, i). (i, s)) d) = map snd d"
  by (induction d) auto

lemma itos_swap: "itos ws = map (\<lambda>(s, i). (i, s)) (stoi ws)"
  unfolding itos_def
  by (rule dict_of_distinct) (simp only: keys_swap distinct_values_stoi)

lemma getitem_itos_mem: "getitem (itos ws) i = Inr c \<longleftrightarrow> (c, i) \<in> set (stoi ws)"
proof -
  have "distinct (map fst (itos ws))"
    by (simp only: itos_swap keys_swap distinct_values_stoi)
  then have "getitem (itos ws) i = Inr c \<longleftrightarrow> (i, c) \<in> set (itos ws)"
    by (simp add: getitem_Inr)
  also have "\<dots> \<longleftrightarrow> (c, i) \<in> set (stoi ws)"
    by (auto simp: itos_swap)
  finally show ?thesis .
qed

section \<open>The counting loops\<close>

lemma shaped_zeros: "shaped (zeros 27 27)"
  by (simp add: shaped_def zeros_def list_all_iff)

lemma shaped_nth: "shaped N \<Longrightarrow> i < 27 \<Longrightarrow> length (N ! i) = 27"
  by (simp add: shaped_def list_all_length)

lemma iadd_Inr:
  assumes "shaped N" and "iadd N a b = Inr N'"
  shows "a < 27 \<and> b < 27 \<and> shaped N'
    \<and> (\<forall>i<27. \<forall>j<27. N' ! i ! j = N ! i ! j + (if i = a \<and> j = b then 1 else 0))"
proof -
  from assms have a: "a < 27" and b: "b < length (N ! a)"
    and N': "N' = N[a := (N ! a)[b := N ! a ! b + 1]]"
    by (auto simp: iadd_def shaped_def split: if_splits)
  from a b assms(1) have b': "b < 27" by (simp add: shaped_nth)
  have "shaped N'"
    using assms(1) a unfolding N' shaped_def list_all_length
    by (auto simp: nth_list_update)
  moreover have "\<forall>i<27. \<forall>j<27. N' ! i ! j = N ! i ! j + (if i = a \<and> j = b then 1 else 0)"
    using assms(1) a b' unfolding N'
    by (auto simp: nth_list_update shaped_def list_all_length)
  ultimately show ?thesis using a b' by blast
qed

lemma iadd_cases:
  assumes "shaped N"
  shows "iadd N a b = (if a < 27 \<and> b < 27 then Inr (N[a := (N ! a)[b := N ! a ! b + 1]]) else Inl IndexError)"
  using assms by (auto simp: iadd_def shaped_def list_all_length)

lemma count_pairs_Inr:
  assumes "shaped N" and "count_pairs st c ks N = Inr N'"
  shows "shaped N' \<and> (\<forall>i<27. \<forall>j<27. N' ! i ! j = N ! i ! j
     + of_nat (length (filter (\<lambda>k. getitem st (c ! k) = Inr i \<and> getitem st (c ! Suc k) = Inr j) ks)))"
  using assms
proof (induction ks arbitrary: N)
  case Nil
  then show ?case by simp
next
  case (Cons k ks)
  from Cons.prems(2) obtain a b N1 where
    a: "getitem st (c ! k) = Inr a" and b: "getitem st (c ! Suc k) = Inr b"
    and N1: "iadd N a b = Inr N1" and rest: "count_pairs st c ks N1 = Inr N'"
    by (auto split: sum.splits)
  from iadd_Inr [OF Cons.prems(1) N1] have sh: "shaped N1"
    and c1: "\<forall>i<27. \<forall>j<27. N1 ! i ! j = N ! i ! j + (if i = a \<and> j = b then 1 else 0)"
    by blast+
  from Cons.IH [OF sh rest] have sh': "shaped N'"
    and c2: "\<forall>i<27. \<forall>j<27. N' ! i ! j = N1 ! i ! j
     + of_nat (length (filter (\<lambda>k. getitem st (c ! k) = Inr i \<and> getitem st (c ! Suc k) = Inr j) ks))"
    by blast+
  show ?case
  proof (intro conjI allI impI)
    show "shaped N'" by (rule sh')
  next
    fix i j :: nat assume "i < 27" "j < 27"
    with c1 c2 a b show "N' ! i ! j = N ! i ! j
     + of_nat (length (filter (\<lambda>k. getitem st (c ! k) = Inr i \<and> getitem st (c ! Suc k) = Inr j) (k # ks)))"
      by auto
  qed
qed

lemma count_words_Inr:
  assumes "shaped N" and "count_words st ws N = Inr N'"
  shows "shaped N' \<and> (\<forall>i<27. \<forall>j<27. N' ! i ! j = N ! i ! j + of_nat (bigram_count st ws i j))"
  using assms
proof (induction ws arbitrary: N)
  case Nil
  then show ?case by (simp add: bigram_count_def)
next
  case (Cons w ws)
  from Cons.prems(2) obtain N1 where
    N1: "count_pairs st (wrapped w) [0..<length (wrapped w) - 1] N = Inr N1"
    and rest: "count_words st ws N1 = Inr N'"
    by (auto simp: wrapped_def Let_def split: sum.splits)
  from count_pairs_Inr [OF Cons.prems(1) N1] have sh: "shaped N1"
    and c1: "\<forall>i<27. \<forall>j<27. N1 ! i ! j = N ! i ! j + of_nat (follows st (wrapped w) i j)"
    by (simp_all add: follows_def)
  from Cons.IH [OF sh rest] have sh': "shaped N'"
    and c2: "\<forall>i<27. \<forall>j<27. N' ! i ! j = N1 ! i ! j + of_nat (bigram_count st ws i j)"
    by blast+
  show ?case
  proof (intro conjI allI impI)
    show "shaped N'" by (rule sh')
  next
    fix i j :: nat assume "i < 27" "j < 27"
    with c1 c2 show "N' ! i ! j = N ! i ! j + of_nat (bigram_count st (w # ws) i j)"
      by (simp add: bigram_count_def)
  qed
qed

lemma counter_cells:
  assumes "counter ws = Inr M"
  shows "shaped M" and "i < 27 \<Longrightarrow> j < 27 \<Longrightarrow> M ! i ! j = of_nat (bigram_count (stoi ws) ws i j)"
proof -
  from assms have run: "count_words (stoi ws) ws (zeros 27 27) = Inr M"
    by (simp add: counter_def)
  note r = count_words_Inr [OF shaped_zeros run]
  from r show "shaped M" by blast
  assume "i < 27" "j < 27"
  with r have "M ! i ! j = zeros 27 27 ! i ! j + of_nat (bigram_count (stoi ws) ws i j)"
    by blast
  with \<open>i < 27\<close> \<open>j < 27\<close> show "M ! i ! j = of_nat (bigram_count (stoi ws) ws i j)"
    by (simp add: zeros_def)
qed

lemma sint_of_nat_small: "n < 2 ^ 31 \<Longrightarrow> sint (of_nat n :: int32) = int n"
  by (simp add: signed_of_nat signed_take_bit_int_eq_self)

lemma knownE: "known st x \<Longrightarrow> (\<And>a. getitem st x = Inr a \<Longrightarrow> P) \<Longrightarrow> P"
  by (auto simp: known_def split: sum.splits)

lemma in_table_iff: "getitem st x = Inr a \<Longrightarrow> in_table st x \<longleftrightarrow> a < 27"
  by (simp add: in_table_def)

lemma in_table_known: "in_table st x \<Longrightarrow> known st x"
  by (auto simp: in_table_def known_def split: sum.splits)

lemma count_pairs_result:
  assumes "shaped N" and "\<forall>k\<in>set ks. known st (c ! k) \<and> known st (c ! Suc k)"
  shows "if (\<forall>k\<in>set ks. in_table st (c ! k) \<and> in_table st (c ! Suc k))
         then (\<exists>N'. count_pairs st c ks N = Inr N')
         else count_pairs st c ks N = Inl IndexError"
  using assms
proof (induction ks arbitrary: N)
  case Nil
  then show ?case by simp
next
  case (Cons k ks)
  from Cons.prems(2) obtain a b where
    a: "getitem st (c ! k) = Inr a" and b: "getitem st (c ! Suc k) = Inr b"
    by (auto elim!: knownE)
  have kn: "\<forall>k\<in>set ks. known st (c ! k) \<and> known st (c ! Suc k)"
    using Cons.prems(2) by simp
  show ?case
  proof (cases "a < 27 \<and> b < 27")
    case False
    then have "iadd N a b = Inl IndexError"
      by (simp add: iadd_cases [OF Cons.prems(1)])
    then have res: "count_pairs st c (k # ks) N = Inl IndexError"
      using a b by simp
    from False a b have "\<not> (in_table st (c ! k) \<and> in_table st (c ! Suc k))"
      by (simp add: in_table_iff)
    then have "\<not> (\<forall>k\<in>set (k # ks). in_table st (c ! k) \<and> in_table st (c ! Suc k))"
      by auto
    then show ?thesis using res by (simp only: if_False)
  next
    case True
    then obtain N1 where N1: "iadd N a b = Inr N1"
      by (simp add: iadd_cases [OF Cons.prems(1)])
    from iadd_Inr [OF Cons.prems(1) N1] have sh: "shaped N1" by blast
    from True a b have ok: "in_table st (c ! k) \<and> in_table st (c ! Suc k)"
      by (simp add: in_table_iff)
    have step: "count_pairs st c (k # ks) N = count_pairs st c ks N1"
      using a b N1 by simp
    from Cons.IH [OF sh kn] ok show ?thesis
      by (simp only: step list.set ball_simps) (simp split: if_splits)
  qed
qed

lemma positions_cover:
  assumes "2 \<le> length c"
  shows "(\<forall>k\<in>set [0..<length c - 1]. P (c ! k) \<and> P (c ! Suc k)) \<longleftrightarrow> (\<forall>x\<in>set c. P x)"
proof
  assume r: "\<forall>x\<in>set c. P x"
  show "\<forall>k\<in>set [0..<length c - 1]. P (c ! k) \<and> P (c ! Suc k)"
  proof
    fix k assume "k \<in> set [0..<length c - 1]"
    then have "k < length c" "Suc k < length c" by auto
    then show "P (c ! k) \<and> P (c ! Suc k)" using r by (simp add: nth_mem)
  qed
next
  assume l: "\<forall>k\<in>set [0..<length c - 1]. P (c ! k) \<and> P (c ! Suc k)"
  show "\<forall>x\<in>set c. P x"
  proof
    fix x assume "x \<in> set c"
    then obtain m where m: "m < length c" "x = c ! m" by (auto simp: in_set_conv_nth)
    show "P x"
    proof (cases "m < length c - 1")
      case True
      with l m show ?thesis by simp
    next
      case False
      with m assms obtain k where "m = Suc k" "k < length c - 1"
        by (cases m) auto
      with l m show ?thesis by simp
    qed
  qed
qed

lemma length_wrapped: "length (wrapped w) - 1 = length w + 1"
  by (simp add: wrapped_def)

lemma count_word_result:
  assumes "shaped N" and "\<forall>x\<in>set (wrapped w). known st x"
  shows "if (\<forall>x\<in>set (wrapped w). in_table st x)
         then (\<exists>N'. count_pairs st (wrapped w) [0..<length (wrapped w) - 1] N = Inr N')
         else count_pairs st (wrapped w) [0..<length (wrapped w) - 1] N = Inl IndexError"
proof -
  have len: "2 \<le> length (wrapped w)" by (simp add: wrapped_def)
  have kn: "\<forall>k\<in>set [0..<length (wrapped w) - 1].
      known st (wrapped w ! k) \<and> known st (wrapped w ! Suc k)"
    using assms(2) by (simp only: positions_cover [OF len])
  from count_pairs_result [OF assms(1) kn] show ?thesis
    by (simp only: positions_cover [OF len])
qed

lemma count_words_step:
  "count_words st (w # ws) N =
     (case count_pairs st (wrapped w) [0..<length (wrapped w) - 1] N of
        Inl e \<Rightarrow> Inl e | Inr N' \<Rightarrow> count_words st ws N')"
  by (simp add: wrapped_def Let_def)

lemma count_words_result:
  assumes "shaped N" and "\<forall>w\<in>set ws. \<forall>x\<in>set (wrapped w). known st x"
  shows "if (\<forall>w\<in>set ws. \<forall>x\<in>set (wrapped w). in_table st x)
         then (\<exists>N'. count_words st ws N = Inr N')
         else count_words st ws N = Inl IndexError"
  using assms
proof (induction ws arbitrary: N)
  case Nil
  then show ?case by simp
next
  case (Cons w ws)
  have kw: "\<forall>x\<in>set (wrapped w). known st x" and kws: "\<forall>w\<in>set ws. \<forall>x\<in>set (wrapped w). known st x"
    using Cons.prems(2) by simp_all
  note cw = count_word_result [OF Cons.prems(1) kw]
  show ?case
  proof (cases "\<forall>x\<in>set (wrapped w). in_table st x")
    case False
    with cw have cp: "count_pairs st (wrapped w) [0..<length (wrapped w) - 1] N = Inl IndexError"
      by simp
    have res: "count_words st (w # ws) N = Inl IndexError"
      by (simp only: count_words_step cp sum.case)
    from False have "\<not> (\<forall>w\<in>set (w # ws). \<forall>x\<in>set (wrapped w). in_table st x)"
      by auto
    then show ?thesis using res by (simp only: if_False)
  next
    case True
    with cw obtain N1 where
      N1: "count_pairs st (wrapped w) [0..<length (wrapped w) - 1] N = Inr N1"
      by auto
    from count_pairs_Inr [OF Cons.prems(1) N1] have sh: "shaped N1" by blast
    have step: "count_words st (w # ws) N = count_words st ws N1"
      by (simp only: count_words_step N1 sum.case)
    from Cons.IH [OF sh kws] True show ?thesis
      by (simp only: step list.set ball_simps) (simp split: if_splits)
  qed
qed

lemma known_stoi: "known (stoi ws) x \<longleftrightarrow> x \<in> insert (CHR ''.'') (set (concat ws))"
proof -
  have "known (stoi ws) x \<longleftrightarrow> (\<exists>a. getitem (stoi ws) x = Inr a)"
    by (auto simp: known_def split: sum.splits)
  also have "\<dots> \<longleftrightarrow> x \<in> fst ` set (stoi ws)"
    by (force simp: getitem_stoi_mem)
  finally show ?thesis by (simp only: keys_stoi)
qed

lemma in_table_boundary: "in_table (stoi ws) (CHR ''.'')"
  by (simp add: in_table_def stoi_boundary)

lemma set_wrapped: "set (wrapped w) = insert (CHR ''.'') (set w)"
  by (auto simp: wrapped_def)

lemma corpus_known: "\<forall>w\<in>set ws. \<forall>x\<in>set (wrapped w). known (stoi ws) x"
  by (auto simp: known_stoi set_wrapped)

lemma corpus_in_table:
  "(\<forall>w\<in>set ws. \<forall>x\<in>set (wrapped w). in_table (stoi vs) x)
     \<longleftrightarrow> (\<forall>x\<in>set (concat ws). in_table (stoi vs) x)"
  by (auto simp: set_wrapped in_table_boundary)

lemma counter_result:
  "if (\<forall>x\<in>set (concat ws). in_table (stoi ws) x)
   then (\<exists>M. counter ws = Inr M)
   else counter ws = Inl IndexError"
  using count_words_result [OF shaped_zeros corpus_known, of ws]
  by (simp only: corpus_in_table counter_def)

lemma few_chars_in_table:
  assumes "length (chars ws) \<le> 26" and "x \<in> set (concat ws)"
  shows "in_table (stoi ws) x"
proof -
  from assms(2) have "known (stoi ws) x" by (simp add: known_stoi)
  then obtain a where a: "getitem (stoi ws) x = Inr a" by (rule knownE)
  then have "a \<le> length (chars ws)"
    by (simp add: getitem_stoi_mem values_stoi_le)
  with assms(1) a show ?thesis by (simp add: in_table_iff)
qed

lemma indicator_sum:
  assumes "a < (27::nat)" and "b < (27::nat)"
  shows "(\<Sum>i<27. \<Sum>j<27. if a = i \<and> b = j then 1 else 0) = (1::nat)"
proof -
  have "(\<Sum>i<27. \<Sum>j<27. if a = i \<and> b = j then 1 else 0)
      = (\<Sum>i<27. if a = i then (\<Sum>j<27. if b = j then 1 else 0) else (0::nat))"
    by (rule sum.cong) auto
  also have "(\<Sum>j<27. if b = j then 1 else 0) = (1::nat)"
    using assms(2) by simp
  also have "(\<Sum>i<27. if a = i then 1 else 0) = (1::nat)"
    using assms(1) by simp
  finally show ?thesis .
qed

lemma sum_filter_positions:
  assumes "\<forall>k\<in>set ks. in_table st (c ! k) \<and> in_table st (c ! Suc k)"
  shows "(\<Sum>i<27. \<Sum>j<27. length (filter
      (\<lambda>k. getitem st (c ! k) = Inr i \<and> getitem st (c ! Suc k) = Inr j) ks)) = length ks"
  using assms
proof (induction ks)
  case Nil
  then show ?case by simp
next
  case (Cons k ks)
  from Cons.prems obtain a b where
    a: "getitem st (c ! k) = Inr a" "a < 27" and b: "getitem st (c ! Suc k) = Inr b" "b < 27"
    by (auto simp: in_table_def split: sum.splits)
  have "(\<Sum>i<27. \<Sum>j<27. length (filter
      (\<lambda>k. getitem st (c ! k) = Inr i \<and> getitem st (c ! Suc k) = Inr j) (k # ks)))
    = (\<Sum>i<27. \<Sum>j<27. (if a = i \<and> b = j then 1 else 0) + length (filter
      (\<lambda>k. getitem st (c ! k) = Inr i \<and> getitem st (c ! Suc k) = Inr j) ks))"
    using a b by (intro sum.cong refl) simp
  also have "\<dots> = (\<Sum>i<27. \<Sum>j<27. if a = i \<and> b = j then 1 else 0)
     + (\<Sum>i<27. \<Sum>j<27. length (filter
      (\<lambda>k. getitem st (c ! k) = Inr i \<and> getitem st (c ! Suc k) = Inr j) ks))"
    by (simp only: sum.distrib)
  also have "\<dots> = 1 + length ks"
    using Cons.IH Cons.prems by (simp only: indicator_sum [OF a(2) b(2)]) simp
  finally show ?case by simp
qed

lemma sum_follows:
  assumes "\<forall>x\<in>set (wrapped w). in_table st x"
  shows "(\<Sum>i<27. \<Sum>j<27. follows st (wrapped w) i j) = length w + 1"
proof -
  have len: "2 \<le> length (wrapped w)" by (simp add: wrapped_def)
  have "\<forall>k\<in>set [0..<length (wrapped w) - 1].
      in_table st (wrapped w ! k) \<and> in_table st (wrapped w ! Suc k)"
    using assms by (simp only: positions_cover [OF len])
  from sum_filter_positions [OF this] show ?thesis
    by (simp add: follows_def wrapped_def)
qed

lemma sum_bigram_count:
  assumes "\<forall>w\<in>set ws. \<forall>x\<in>set (wrapped w). in_table st x"
  shows "(\<Sum>i<27. \<Sum>j<27. bigram_count st ws i j) = transitions ws"
  using assms
proof (induction ws)
  case Nil
  then show ?case by (simp add: bigram_count_def transitions_def)
next
  case (Cons w ws)
  have "(\<Sum>i<27. \<Sum>j<27. bigram_count st (w # ws) i j)
      = (\<Sum>i<27. \<Sum>j<27. follows st (wrapped w) i j) + (\<Sum>i<27. \<Sum>j<27. bigram_count st ws i j)"
    by (simp add: bigram_count_def sum.distrib)
  also have "\<dots> = (length w + 1) + transitions ws"
    using Cons by (simp add: sum_follows)
  finally show ?case by (simp add: transitions_def)
qed

lemma total_nth:
  assumes "shaped N"
  shows "total N = (\<Sum>i<27. \<Sum>j<27. sint (N ! i ! j))"
proof -
  have "total N = (\<Sum>i<length N. \<Sum>x\<leftarrow>N ! i. sint x)"
    by (simp add: total_def sum_list_sum_nth atLeast0LessThan)
  also have "\<dots> = (\<Sum>i<27. \<Sum>x\<leftarrow>N ! i. sint x)"
    using assms by (simp add: shaped_def)
  also have "\<dots> = (\<Sum>i<27. \<Sum>j<27. sint (N ! i ! j))"
  proof (rule sum.cong)
    fix i assume "i \<in> {..<27::nat}"
    then have "length (N ! i) = 27" using assms by (simp add: shaped_nth)
    then show "(\<Sum>x\<leftarrow>N ! i. sint x) = (\<Sum>j<27. sint (N ! i ! j))"
      by (simp add: sum_list_sum_nth atLeast0LessThan)
  qed simp
  finally show ?thesis .
qed

lemma follows_le: "follows st (wrapped w) i j \<le> length w + 1"
proof -
  have "follows st (wrapped w) i j \<le> length [0..<length (wrapped w) - 1]"
    unfolding follows_def by (rule length_filter_le)
  then show ?thesis by (simp add: wrapped_def)
qed

lemma bigram_count_le: "bigram_count st ws i j \<le> transitions ws"
proof (induction ws)
  case Nil
  show ?case by (simp add: bigram_count_def)
next
  case (Cons w ws)
  with follows_le [of st w i j] show ?case
    by (simp add: bigram_count_def transitions_def)
qed

lemma counter_in_table:
  assumes "counter ws = Inr M"
  shows "\<forall>w\<in>set ws. \<forall>x\<in>set (wrapped w). in_table (stoi ws) x"
proof -
  from counter_result [of ws] assms have "\<forall>x\<in>set (concat ws). in_table (stoi ws) x"
    by (simp split: if_splits)
  then show ?thesis by (simp only: corpus_in_table)
qed

lemma counter_total:
  assumes run: "counter ws = Inr M"
    and small: "\<forall>i<27. \<forall>j<27. bigram_count (stoi ws) ws i j < 2 ^ 31"
  shows "total M = int (transitions ws)"
proof -
  have "total M = (\<Sum>i<27. \<Sum>j<27. sint (M ! i ! j))"
    by (rule total_nth) (rule counter_cells(1) [OF run])
  also have "\<dots> = (\<Sum>i<27. \<Sum>j<27. int (bigram_count (stoi ws) ws i j))"
  proof (intro sum.cong refl)
    fix i j :: nat assume "i \<in> {..<27}" "j \<in> {..<27}"
    then have ij: "i < 27" "j < 27" by simp_all
    with small have "bigram_count (stoi ws) ws i j < 2 ^ 31" by blast
    then show "sint (M ! i ! j) = int (bigram_count (stoi ws) ws i j)"
      by (simp only: counter_cells(2) [OF run ij] sint_of_nat_small)
  qed
  also have "\<dots> = int (\<Sum>i<27. \<Sum>j<27. bigram_count (stoi ws) ws i j)"
    by simp
  also have "\<dots> = int (transitions ws)"
    by (simp only: sum_bigram_count [OF counter_in_table [OF run]])
  finally show ?thesis .
qed

lemma count_words_empties:
  assumes "getitem st (CHR ''.'') = Inr 0" and "shaped N"
  shows "count_words st (replicate n []) N = Inr (N[0 := (N ! 0)[0 := N ! 0 ! 0 + of_nat n]])"
  using assms(2)
proof (induction n arbitrary: N)
  case 0
  then show ?case by simp
next
  case (Suc n)
  let ?N1 = "N[0 := (N ! 0)[0 := N ! 0 ! 0 + 1]]"
  have ia: "iadd N 0 0 = Inr ?N1"
    by (simp add: iadd_cases [OF Suc.prems])
  from iadd_Inr [OF Suc.prems ia] have sh: "shaped ?N1" by blast
  have len: "0 < length N" "0 < length (N ! 0)"
    using Suc.prems shaped_nth [of N 0] by (simp_all add: shaped_def)
  have "count_words st (replicate (Suc n) []) N = count_words st (replicate n []) ?N1"
    using assms(1) ia by simp
  also have "\<dots> = Inr (?N1[0 := (?N1 ! 0)[0 := ?N1 ! 0 ! 0 + of_nat n]])"
    by (rule Suc.IH [OF sh])
  also have "?N1[0 := (?N1 ! 0)[0 := ?N1 ! 0 ! 0 + of_nat n]]
      = N[0 := (N ! 0)[0 := N ! 0 ! 0 + of_nat (Suc n)]]"
    using len by (simp add: add.assoc)
  finally show ?case .
qed

lemma stoi_empties: "stoi (replicate n []) = [(CHR ''.'', 0)]"
  by (simp add: stoi_def chars_def dict_of_def enumerate_eq_zip)

lemma counter_empties:
  "counter (replicate n []) = Inr ((zeros 27 27)[0 := (replicate 27 0)[0 := of_nat n]])"
proof -
  have "getitem (stoi (replicate n [])) (CHR ''.'') = Inr 0" by (rule stoi_boundary)
  from count_words_empties [OF this shaped_zeros, of n] show ?thesis
    by (simp add: counter_def zeros_def)
qed

lemma bigram_count_empties: "bigram_count (stoi (replicate n [])) (replicate n []) 0 0 = n"
  by (simp add: bigram_count_def follows_def wrapped_def stoi_empties getitem_def sum_list_replicate)

lemma zeros_update_zero: "(zeros 27 27)[0 := (replicate 27 0)[0 := 0]] = zeros 27 27"
  by code_simp

lemma follows_start:
  assumes "getitem st (CHR ''.'') = Inr 0" and "getitem st (wrapped w ! 1) = Inr b"
  shows "1 \<le> follows st (wrapped w) 0 b"
proof -
  have "[0..<length (wrapped w) - 1] = 0 # [Suc 0..<Suc (length w)]"
    by (simp only: length_wrapped) (simp add: upt_conv_Cons del: upt_Suc)
  moreover have "getitem st (wrapped w ! 0) = Inr 0 \<and> getitem st (wrapped w ! Suc 0) = Inr b"
    using assms by (simp add: wrapped_def)
  ultimately show ?thesis
    unfolding follows_def by (simp del: upt_Suc)
qed

lemma row0_follows:
  assumes "getitem st (CHR ''.'') = Inr 0" and "\<forall>x\<in>set (wrapped w). in_table st x"
  shows "1 \<le> (\<Sum>j<27. follows st (wrapped w) 0 j)"
proof -
  have "wrapped w ! 1 \<in> set (wrapped w)"
    by (rule nth_mem) (simp add: wrapped_def)
  with assms(2) have it: "in_table st (wrapped w ! 1)" by blast
  then obtain b where b1: "getitem st (wrapped w ! 1) = Inr b"
    by (auto dest: in_table_known elim: knownE)
  with it have "b < 27" by (simp add: in_table_iff)
  note b = b1 this
  have "follows st (wrapped w) 0 b \<le> (\<Sum>j<27. follows st (wrapped w) 0 j)"
    using b(2) by (intro member_le_sum) simp_all
  with follows_start [OF assms(1) b(1)] show ?thesis by simp
qed

lemma row0_words:
  assumes "getitem st (CHR ''.'') = Inr 0" and "\<forall>w\<in>set ws. \<forall>x\<in>set (wrapped w). in_table st x"
  shows "length ws \<le> (\<Sum>j<27. bigram_count st ws 0 j)"
  using assms(2)
proof (induction ws)
  case Nil
  show ?case by simp
next
  case (Cons w ws)
  have "(\<Sum>j<27. bigram_count st (w # ws) 0 j)
      = (\<Sum>j<27. follows st (wrapped w) 0 j) + (\<Sum>j<27. bigram_count st ws 0 j)"
    by (simp add: bigram_count_def sum.distrib)
  moreover have "1 \<le> (\<Sum>j<27. follows st (wrapped w) 0 j)"
    using Cons.prems by (intro row0_follows [OF assms(1)]) simp
  moreover have "length ws \<le> (\<Sum>j<27. bigram_count st ws 0 j)"
    using Cons by simp
  ultimately show ?case by simp
qed

lemma follows_empty_word:
  assumes "getitem st (CHR ''.'') = Inr 0"
  shows "follows st (wrapped []) 0 0 = 1"
  using assms by (simp add: follows_def wrapped_def)

lemma bigram_count_empty_word:
  assumes "getitem st (CHR ''.'') = Inr 0" and "[] \<in> set ws"
  shows "1 \<le> bigram_count st ws 0 0"
proof -
  have "follows st (wrapped []) 0 0 \<in> set (map (\<lambda>w. follows st (wrapped w) 0 0) ws)"
    using assms(2) by force
  then have "follows st (wrapped []) 0 0 \<le> bigram_count st ws 0 0"
    unfolding bigram_count_def by (rule Groups_List.canonically_ordered_monoid_add_class.member_le_sum_list)
  then show ?thesis by (simp add: follows_empty_word [OF assms(1)])
qed

lemma count_empty_word:
  assumes "getitem st (CHR ''.'') = Inr 0"
  shows "count_words st ([] # ws) N =
    (case iadd N 0 0 of Inl e \<Rightarrow> Inl e | Inr N' \<Rightarrow> count_words st ws N')"
  using assms by (simp split: sum.splits)

lemma chars_set: "set (concat ws) = set (concat vs) \<Longrightarrow> chars ws = chars vs"
proof -
  assume eq: "set (concat ws) = set (concat vs)"
  have "chars us = sorted_list_of_set (set (concat us))" for us
    unfolding chars_def by (rule sorted_list_of_set_sort_remdups [symmetric])
  then show ?thesis by (simp only: eq)
qed

lemma permutation_set_concat: "mset ws = mset vs \<Longrightarrow> set (concat ws) = set (concat vs)"
proof -
  assume "mset ws = mset vs"
  then have "set ws = set vs" by (rule mset_eq_setD)
  then show ?thesis by simp
qed

lemma stoi_permutation: "mset ws = mset vs \<Longrightarrow> stoi ws = stoi vs"
proof -
  assume "mset ws = mset vs"
  then have "chars ws = chars vs"
    by (rule chars_set [OF permutation_set_concat])
  then show ?thesis by (simp only: stoi_def)
qed

lemma bigram_count_permutation:
  assumes "mset ws = mset vs"
  shows "bigram_count st ws i j = bigram_count st vs i j"
proof -
  have "bigram_count st us i j = sum_mset (image_mset (\<lambda>w. follows st (wrapped w) i j) (mset us))" for us
    unfolding bigram_count_def by (simp only: sum_mset_sum_list [symmetric] mset_map)
  with assms show ?thesis by (simp only:)
qed

lemma shaped_ext:
  assumes "shaped M" and "shaped M'" and "\<And>i j. i < 27 \<Longrightarrow> j < 27 \<Longrightarrow> M ! i ! j = M' ! i ! j"
  shows "M = M'"
proof (rule nth_equalityI)
  show "length M = length M'" using assms(1,2) by (simp add: shaped_def)
next
  fix i assume "i < length M"
  then have i: "i < 27" using assms(1) by (simp add: shaped_def)
  show "M ! i = M' ! i"
  proof (rule nth_equalityI)
    show "length (M ! i) = length (M' ! i)"
      using assms(1,2) i by (simp add: shaped_nth)
  next
    fix j assume "j < length (M ! i)"
    then have "j < 27" using assms(1) i by (simp add: shaped_nth)
    with i show "M ! i ! j = M' ! i ! j" by (rule assms(3))
  qed
qed

lemma counter_permutation:
  assumes "mset ws = mset vs"
  shows "counter ws = counter vs"
proof -
  have st: "stoi ws = stoi vs" by (rule stoi_permutation [OF assms])
  have cs: "set (concat ws) = set (concat vs)" by (rule permutation_set_concat [OF assms])
  show ?thesis
  proof (cases "\<forall>x\<in>set (concat ws). in_table (stoi ws) x")
    case False
    then have "counter ws = Inl IndexError"
      using counter_result [of ws] by simp
    moreover from False have "\<not> (\<forall>x\<in>set (concat vs). in_table (stoi vs) x)"
      unfolding st cs .
    then have "counter vs = Inl IndexError"
      using counter_result [of vs] by simp
    ultimately show ?thesis by simp
  next
    case True
    then obtain M where M: "counter ws = Inr M"
      using counter_result [of ws] by auto
    from True have "\<forall>x\<in>set (concat vs). in_table (stoi vs) x"
      unfolding st cs .
    then obtain M' where M': "counter vs = Inr M'"
      using counter_result [of vs] by auto
    have "M = M'"
    proof (rule shaped_ext)
      show "shaped M" by (rule counter_cells(1) [OF M])
      show "shaped M'" by (rule counter_cells(1) [OF M'])
      fix i j :: nat assume ij: "i < 27" "j < 27"
      show "M ! i ! j = M' ! i ! j"
        by (simp only: counter_cells(2) [OF M ij] counter_cells(2) [OF M' ij] st
            bigram_count_permutation [OF assms])
    qed
    with M M' show ?thesis by simp
  qed
qed

section \<open>Rounding to single precision\<close>

lemma pow2_powi: "pow2 e = power_int 2 e"
  unfolding pow2_def power_int_def by (cases "0 \<le> e") (simp_all add: field_simps)

lemma pow2_pos: "0 < pow2 e"
  by (simp add: pow2_powi)

lemma pow2_add: "pow2 (a + b) = pow2 a * pow2 b"
  by (simp add: pow2_powi power_int_add)

lemma pow2_mono: "a \<le> b \<Longrightarrow> pow2 a \<le> pow2 b"
  by (simp add: pow2_powi power_int_increasing)

lemma pow2_less_imp: "pow2 a < pow2 b \<Longrightarrow> a < b"
  using pow2_mono [of b a] by (cases "a < b") auto

lemma pow2_nat: "pow2 (int n) = 2 ^ n"
  by (simp add: pow2_def)

lemma binade_spec:
  assumes "0 < a"
  shows "pow2 (binade a) \<le> a" and "a < pow2 (binade a + 1)"
proof -
  obtain p q where pq: "quotient_of a = (p, q)" by (cases "quotient_of a")
  then have q: "0 < q" by (rule quotient_of_denom_pos)
  from pq have a: "a = of_int p / of_int q" by (rule quotient_of_div)
  with assms q have p: "0 < p" by (simp add: zero_less_divide_iff)
  let ?d = "bitlen p - bitlen q"
  have bp: "1 \<le> bitlen p" and bq: "1 \<le> bitlen q"
    using p q bitlen_eq_zero_iff [of p] bitlen_eq_zero_iff [of q] bitlen_nonneg [of p] bitlen_nonneg [of q]
    by linarith+
  from bitlen_bounds [OF p] have "(of_int (2 ^ nat (bitlen p - 1)) :: rat) \<le> of_int p"
    and "(of_int p :: rat) < of_int (2 ^ nat (bitlen p))"
    by (simp_all only: of_int_le_iff of_int_less_iff)
  then have p1: "pow2 (bitlen p - 1) \<le> of_int p" and p2: "of_int p < pow2 (bitlen p)"
    using bp by (simp_all add: pow2_def)
  from bitlen_bounds [OF q] have "(of_int (2 ^ nat (bitlen q - 1)) :: rat) \<le> of_int q"
    and "(of_int q :: rat) < of_int (2 ^ nat (bitlen q))"
    by (simp_all only: of_int_le_iff of_int_less_iff)
  then have q1: "pow2 (bitlen q - 1) \<le> of_int q" and q2: "of_int q < pow2 (bitlen q)"
    using bq by (simp_all add: pow2_def)
  have qpos: "(0::rat) < of_int q" using q by simp
  have upper: "a < pow2 (?d + 1)"
  proof -
    have "of_int p < pow2 (?d + 1) * pow2 (bitlen q - 1)"
      using p2 by (simp add: pow2_add [symmetric])
    also have "\<dots> \<le> pow2 (?d + 1) * of_int q"
      using q1 pow2_pos [of "?d + 1"] by (simp add: mult_left_mono)
    finally show ?thesis
      using qpos by (simp add: a pos_divide_less_eq)
  qed
  have lower: "pow2 (?d - 1) \<le> a"
  proof -
    have "pow2 (?d - 1) * of_int q \<le> pow2 (?d - 1) * pow2 (bitlen q)"
      using q2 pow2_pos [of "?d - 1"] by (simp add: mult_left_mono)
    also have "\<dots> = pow2 (bitlen p - 1)"
      by (simp add: pow2_add [symmetric])
    also have "\<dots> \<le> of_int p" by (rule p1)
    finally show ?thesis
      using qpos by (simp add: a pos_le_divide_eq)
  qed
  have b: "binade a = (if pow2 ?d \<le> a then ?d else ?d - 1)"
    by (simp add: binade_def pq)
  show "pow2 (binade a) \<le> a"
    using lower by (simp add: b)
  show "a < pow2 (binade a + 1)"
    using upper by (auto simp: b)
qed

lemma binade_ge: "0 < a \<Longrightarrow> pow2 k \<le> a \<Longrightarrow> k \<le> binade a"
proof -
  assume "0 < a" "pow2 k \<le> a"
  with binade_spec(2) [of a] have "pow2 k < pow2 (binade a + 1)" by simp
  then have "k < binade a + 1" by (rule pow2_less_imp)
  then show ?thesis by simp
qed

lemma binade_less: "0 < a \<Longrightarrow> a < pow2 k \<Longrightarrow> binade a < k"
proof -
  assume "0 < a" "a < pow2 k"
  with binade_spec(1) [of a] have "pow2 (binade a) < pow2 k" by simp
  then show ?thesis by (rule pow2_less_imp)
qed

lemma round_even_err: "\<bar>of_int (round_even r) - r\<bar> \<le> 1 / 2"
proof -
  have "of_int \<lfloor>r\<rfloor> \<le> r" and "r < of_int \<lfloor>r\<rfloor> + 1" by linarith+
  then show ?thesis
    by (auto simp: round_even_def Let_def)
qed

lemma round_even_int: "round_even (of_int z) = z"
  by (simp add: round_even_def)

lemma fl_pos:
  assumes lo: "pow2 (- 126) \<le> q" and hi: "q < 2 ^ 127"
  shows "\<exists>v. fl q = Finite v \<and> \<bar>v - q\<bar> \<le> q / 2 ^ 24"
proof -
  have q: "0 < q" using lo pow2_pos [of "- 126"] by linarith
  let ?k = "binade q"
  have klo: "- 126 \<le> ?k" using q lo by (rule binade_ge)
  have "q < pow2 127" using hi by (simp add: pow2_def)
  with q have khi: "?k < 127" by (rule binade_less)
  let ?e = "?k - 23"
  have e: "max (?k - 23) (- 149) = ?e" using klo by simp
  let ?n = "round_even (q / pow2 ?e)"
  let ?v = "of_int ?n * pow2 ?e"
  have pe: "0 < pow2 ?e" by (rule pow2_pos)
  have "\<bar>of_int ?n - q / pow2 ?e\<bar> \<le> 1 / 2" by (rule round_even_err)
  then have "\<bar>of_int ?n - q / pow2 ?e\<bar> * pow2 ?e \<le> 1 / 2 * pow2 ?e"
    using pe by (simp add: mult_right_mono)
  moreover have "\<bar>of_int ?n - q / pow2 ?e\<bar> * pow2 ?e = \<bar>?v - q\<bar>"
  proof -
    have "\<bar>of_int ?n - q / pow2 ?e\<bar> * pow2 ?e = \<bar>(of_int ?n - q / pow2 ?e) * pow2 ?e\<bar>"
      using pe by (simp add: abs_mult)
    also have "(of_int ?n - q / pow2 ?e) * pow2 ?e = ?v - q"
      using pe by (simp add: field_simps)
    finally show ?thesis .
  qed
  ultimately have err: "\<bar>?v - q\<bar> \<le> pow2 ?e / 2" by simp
  have "pow2 ?k = pow2 ?e * pow2 23" by (simp add: pow2_add [symmetric])
  then have "pow2 ?e = pow2 ?k / 2 ^ 23" by (simp add: pow2_def)
  then have "pow2 ?e / 2 = pow2 ?k / 2 ^ 24" by simp
  also have "\<dots> \<le> q / 2 ^ 24"
    using binade_spec(1) [OF q] by (simp add: divide_right_mono)
  finally have half: "pow2 ?e / 2 \<le> q / 2 ^ 24" .
  with err have rel: "\<bar>?v - q\<bar> \<le> q / 2 ^ 24" by linarith
  then have "?v \<le> q + q / 2 ^ 24" by linarith
  also have "\<dots> < 2 ^ 127 + 2 ^ 127 / 2 ^ 24"
    using hi by (intro add_strict_mono divide_strict_right_mono) simp_all
  also have "\<dots> < (2 ^ 128 :: rat)" by simp
  finally have nov: "\<not> 2 ^ 128 \<le> ?v" by simp
  have "fl q = Finite ?v"
    using q nov by (simp add: fl_def Let_def e del: of_int_mult)
  with rel show ?thesis by blast
qed

lemma fl_zero: "fl 0 = Finite 0"
  by (simp add: fl_def)

lemma fl_nat_exact:
  assumes m: "0 < m" and le: "m \<le> 2 ^ 24"
  shows "fl (of_int m) = Finite (of_int m)"
proof -
  let ?q = "of_int m :: rat"
  have q: "0 < ?q" using m by simp
  let ?k = "binade ?q"
  have "pow2 0 \<le> ?q" using m by (simp add: pow2_def)
  with q have klo: "0 \<le> ?k" by (rule binade_ge)
  have "?q < pow2 25"
  proof -
    have "?q \<le> of_int (2 ^ 24)" using le by (simp only: of_int_le_iff)
    then show ?thesis by (simp add: pow2_def)
  qed
  with q have khi: "?k < 25" by (rule binade_less)
  let ?e = "?k - 23"
  have e: "max (?k - 23) (- 149) = ?e" using klo by simp
  have "\<exists>z. ?q / pow2 ?e = of_int z"
  proof (cases "?k \<le> 23")
    case True
    then have "pow2 ?e = 1 / 2 ^ nat (23 - ?k)"
      by (auto simp: pow2_def)
    then have "?q / pow2 ?e = of_int (m * 2 ^ nat (23 - ?k))" by simp
    then show ?thesis by blast
  next
    case False
    with khi have k: "?k = 24" by simp
    from binade_spec(1) [OF q] have "(2 ^ 24 :: rat) \<le> of_int m"
      by (simp add: k pow2_def)
    then have "(of_int (2 ^ 24) :: rat) \<le> of_int m" by simp
    then have "2 ^ 24 \<le> m" by (simp only: of_int_le_iff)
    with le have "m = 2 ^ 24" by simp
    then have "?q = 2 ^ 24" by simp
    moreover have "pow2 ?e = 2" by (simp add: k pow2_def)
    ultimately have "?q / pow2 ?e = of_int (2 ^ 23)"
      by (simp only:) simp
    then show ?thesis by blast
  qed
  then obtain z where z: "?q / pow2 ?e = of_int z" by blast
  have pe: "pow2 ?e \<noteq> 0" using pow2_pos [of ?e] by simp
  have "of_int (round_even (?q / pow2 ?e)) * pow2 ?e = ?q"
    using pe by (simp only: z round_even_int) (simp add: z [symmetric])
  moreover have "\<not> (2 ^ 128 :: rat) \<le> ?q"
  proof -
    have "?q \<le> of_int (2 ^ 24)" using le by (simp only: of_int_le_iff)
    then show ?thesis by simp
  qed
  ultimately show ?thesis
    using q by (simp add: fl_def Let_def e del: of_int_mult)
qed

lemma fl_minus: "fl (- q) = fneg (fl q)"
  by (simp add: fl_def Let_def)

lemma fl_int_exact:
  assumes "\<bar>m\<bar> \<le> 2 ^ 24"
  shows "fl (of_int m) = Finite (of_int m)"
proof (cases m "0::int" rule: linorder_cases)
  case equal
  then show ?thesis by (simp add: fl_zero)
next
  case greater
  with assms show ?thesis by (simp add: fl_nat_exact)
next
  case less
  with assms have "fl (of_int (- m)) = Finite (of_int (- m))"
    by (intro fl_nat_exact) simp_all
  then have "fneg (fl (of_int m)) = Finite (- of_int m)"
    by (simp add: fl_minus)
  then show ?thesis by (cases "fl (of_int m)") simp_all
qed

lemma summed_total: "\<exists>s. summed A s"
proof (induction A)
  case empty
  show ?case by (blast intro: summed_empty)
next
  case (add x A)
  then obtain s where s: "summed A s" by blast
  show ?case
  proof (cases "A = {#}")
    case True
    then show ?thesis by (auto intro: summed_single)
  next
    case False
    from summed_join [OF summed_single [of x] s _ False]
    have "summed ({#x#} + A) (fadd x s)" by simp
    then show ?thesis by auto
  qed
qed

lemma sum_abs_ge: "\<bar>\<Sum>m\<in>#I. m\<bar> \<le> (\<Sum>m\<in>#I. \<bar>m\<bar>)" for I :: "int multiset"
  by (induction I) auto

lemma summed_exact:
  assumes "summed A s" and "A = image_mset (\<lambda>m. Finite (of_int m)) I"
    and "(\<Sum>m\<in>#I. \<bar>m\<bar>) \<le> 2 ^ 24"
  shows "s = Finite (of_int (\<Sum>m\<in>#I. m))"
  using assms
proof (induction arbitrary: I rule: summed.induct)
  case summed_empty
  then show ?case by simp
next
  case (summed_single x)
  from summed_single(1) have "size I = 1"
    by (metis size_image_mset size_single)
  then have "\<exists>m. I = {#m#}" by (rule size_1_singleton_mset)
  then obtain m where m: "I = {#m#}" by blast
  with summed_single(1) have "x = Finite (of_int m)" by simp
  with m have "I = {#m#}" and "x = Finite (of_int m)" by simp_all
  then show ?case by simp
next
  case (summed_join A a B b)
  from image_mset_eq_plusD [OF summed_join.prems(1) [symmetric]]
  obtain IA IB where I: "I = IA + IB"
    and A: "A = image_mset (\<lambda>m. Finite (of_int m)) IA"
    and B: "B = image_mset (\<lambda>m. Finite (of_int m)) IB"
    by blast
  have nonneg: "0 \<le> (\<Sum>m\<in>#J. \<bar>m\<bar>)" for J :: "int multiset"
    by (induction J) simp_all
  have tot: "(\<Sum>m\<in>#IA. \<bar>m\<bar>) + (\<Sum>m\<in>#IB. \<bar>m\<bar>) \<le> 2 ^ 24"
    using summed_join.prems(2) by (simp add: I)
  from tot nonneg [of IB] have "(\<Sum>m\<in>#IA. \<bar>m\<bar>) \<le> 2 ^ 24" by linarith
  from summed_join.IH(1) [OF A this] have a: "a = Finite (of_int (\<Sum>m\<in>#IA. m))" .
  from tot nonneg [of IA] have "(\<Sum>m\<in>#IB. \<bar>m\<bar>) \<le> 2 ^ 24" by linarith
  from summed_join.IH(2) [OF B this] have b: "b = Finite (of_int (\<Sum>m\<in>#IB. m))" .
  have "\<bar>(\<Sum>m\<in>#IA. m) + (\<Sum>m\<in>#IB. m)\<bar> \<le> 2 ^ 24"
    using sum_abs_ge [of IA] sum_abs_ge [of IB] tot by linarith
  then have "fl (of_int ((\<Sum>m\<in>#IA. m) + (\<Sum>m\<in>#IB. m)))
      = Finite (of_int ((\<Sum>m\<in>#IA. m) + (\<Sum>m\<in>#IB. m)))"
    by (rule fl_int_exact)
  then show ?case by (simp add: a b I)
qed

lemma fl_nonneg:
  assumes "0 \<le> q" and "q = 0 \<or> pow2 (- 126) \<le> q" and "q < 2 ^ 127"
  shows "\<exists>v. fl q = Finite v \<and> q * (1 - eps) \<le> v \<and> v \<le> q * (1 + eps)"
proof (cases "q = 0")
  case True
  then show ?thesis by (simp add: fl_zero)
next
  case False
  with assms(2) have "pow2 (- 126) \<le> q" by simp
  from fl_pos [OF this assms(3)] obtain v where
    v: "fl q = Finite v" and e: "\<bar>v - q\<bar> \<le> q / 2 ^ 24" by blast
  from e have "q - q / 2 ^ 24 \<le> v" and "v \<le> q + q / 2 ^ 24" by linarith+
  then have "q * (1 - eps) \<le> v \<and> v \<le> q * (1 + eps)"
    by (simp add: eps_def algebra_simps)
  with v show ?thesis by blast
qed

lemma lo_pow: "n \<le> 26 \<Longrightarrow> 1 / 2 \<le> (1 - eps) ^ n"
proof -
  assume n: "n \<le> 26"
  have "(1 / 2 :: rat) \<le> 1 + of_nat n * (- eps)"
  proof -
    have "(of_nat n :: rat) \<le> 26" using n by simp
    then have "of_nat n * eps \<le> 26 * eps" by (simp add: eps_def mult_right_mono)
    also have "\<dots> \<le> 1 / 2" by (simp add: eps_def)
    finally show ?thesis by simp
  qed
  also have "\<dots> \<le> (1 + (- eps)) ^ n"
    by (rule Bernoulli_inequality) (simp add: eps_def)
  finally show ?thesis by simp
qed

lemma hi_pow_inv: "(1 + eps) ^ n * (1 - of_nat n * eps) \<le> 1"
proof -
  have e: "0 \<le> eps" "eps \<le> 1" by (simp_all add: eps_def)
  have "1 + of_nat n * (- eps) \<le> (1 + (- eps)) ^ n"
    by (rule Bernoulli_inequality) (use e in simp)
  then have "1 - of_nat n * eps \<le> (1 - eps) ^ n" by simp
  then have "(1 + eps) ^ n * (1 - of_nat n * eps) \<le> (1 + eps) ^ n * (1 - eps) ^ n"
    using e by (intro mult_left_mono) simp_all
  also have "\<dots> = ((1 + eps) * (1 - eps)) ^ n" by (simp add: power_mult_distrib)
  also have "\<dots> \<le> 1"
  proof (rule power_le_one)
    show "0 \<le> (1 + eps) * (1 - eps)" using e by simp
    show "(1 + eps) * (1 - eps) \<le> 1" using e by (simp add: algebra_simps)
  qed
  finally show ?thesis .
qed

lemma hi_pow: "n \<le> 26 \<Longrightarrow> (1 + eps) ^ n \<le> 2"
proof -
  assume n: "n \<le> 26"
  have "(of_nat n :: rat) \<le> 26" using n by simp
  then have "of_nat n * eps \<le> 26 * eps" by (simp add: eps_def mult_right_mono)
  also have "\<dots> \<le> 1 / 2" by (simp add: eps_def)
  finally have half: "1 / 2 \<le> 1 - of_nat n * eps" by simp
  have pos: "0 \<le> (1 + eps) ^ n" by (simp add: eps_def)
  have "(1 + eps) ^ n * (1 / 2) \<le> (1 + eps) ^ n * (1 - of_nat n * eps)"
    using half pos by (rule mult_left_mono)
  also have "\<dots> \<le> 1" by (rule hi_pow_inv)
  finally show ?thesis by simp
qed

lemma sum_zero_or_half:
  "\<forall>v\<in>#R. v = 0 \<or> 1 / 2 \<le> v \<Longrightarrow> (\<Sum>v\<in>#R. v) = 0 \<or> 1 / 2 \<le> (\<Sum>v\<in>#R. v)"
  for R :: "rat multiset"
  by (induction R) auto

lemma sum_nonneg_half:
  "\<forall>v\<in>#R. v = 0 \<or> 1 / 2 \<le> v \<Longrightarrow> 0 \<le> (\<Sum>v\<in>#R. v)"
  for R :: "rat multiset"
  using sum_zero_or_half [of R] by auto

lemma sum_le_size:
  "\<forall>v\<in>#R. v \<le> c \<Longrightarrow> (\<Sum>v\<in>#R. v) \<le> of_nat (size R) * c"
  for R :: "rat multiset"
  by (induction R) (auto simp: algebra_simps)

lemma summed_bound:
  assumes "summed A s" and "A = image_mset Finite R" and "R \<noteq> {#}"
    and "\<forall>v\<in>#R. (v = 0 \<or> 1 / 2 \<le> v) \<and> v \<le> 2 ^ 32" and "size R \<le> 27"
  shows "\<exists>S. s = Finite S
    \<and> (\<Sum>v\<in>#R. v) * (1 - eps) ^ (size R - 1) \<le> S
    \<and> S \<le> (\<Sum>v\<in>#R. v) * (1 + eps) ^ (size R - 1)"
  using assms
proof (induction arbitrary: R rule: summed.induct)
  case summed_empty
  then show ?case by simp
next
  case (summed_single x)
  from summed_single(1) have "size R = 1"
    by (metis size_image_mset size_single)
  then have "\<exists>v. R = {#v#}" by (rule size_1_singleton_mset)
  then obtain v where v: "R = {#v#}" by blast
  with summed_single(1) have "x = Finite v" by simp
  with v show ?case by simp
next
  case (summed_join A a B b)
  from image_mset_eq_plusD [OF summed_join.prems(1) [symmetric]]
  obtain RA RB where R: "R = RA + RB"
    and A: "A = image_mset Finite RA" and B: "B = image_mset Finite RB"
    by blast
  have neA: "RA \<noteq> {#}" and neB: "RB \<noteq> {#}"
    using summed_join.hyps(3,4) A B by auto
  have elA: "\<forall>v\<in>#RA. (v = 0 \<or> 1 / 2 \<le> v) \<and> v \<le> 2 ^ 32"
    and elB: "\<forall>v\<in>#RB. (v = 0 \<or> 1 / 2 \<le> v) \<and> v \<le> 2 ^ 32"
    using summed_join.prems(3) by (auto simp: R)
  let ?nA = "size RA" and ?nB = "size RB"
  have nA: "1 \<le> ?nA" and nB: "1 \<le> ?nB"
    using neA neB by (simp_all add: Suc_le_eq nonempty_has_size)
  have n: "?nA + ?nB \<le> 27" using summed_join.prems(4) by (simp add: R)
  let ?XA = "\<Sum>v\<in>#RA. v" and ?XB = "\<Sum>v\<in>#RB. v"
  let ?l = "1 - eps" and ?h = "1 + eps"
  from summed_join.IH(1) [OF A neA elA] n obtain Sa where
    a: "a = Finite Sa" and aL: "?XA * ?l ^ (?nA - 1) \<le> Sa" and aU: "Sa \<le> ?XA * ?h ^ (?nA - 1)"
    by auto
  from summed_join.IH(2) [OF B neB elB] n obtain Sb where
    b: "b = Finite Sb" and bL: "?XB * ?l ^ (?nB - 1) \<le> Sb" and bU: "Sb \<le> ?XB * ?h ^ (?nB - 1)"
    by auto
  have XA0: "0 \<le> ?XA" by (rule sum_nonneg_half) (use elA in blast)
  have XB0: "0 \<le> ?XB" by (rule sum_nonneg_half) (use elB in blast)
  have l01: "0 < ?l" "?l \<le> 1" and h1: "1 \<le> ?h" by (simp_all add: eps_def)
  have mA: "?nA - 1 \<le> 26" and mB: "?nB - 1 \<le> 26" using n by simp_all
  have lA: "1 / 2 \<le> ?l ^ (?nA - 1)" by (rule lo_pow [OF mA])
  have lB: "1 / 2 \<le> ?l ^ (?nB - 1)" by (rule lo_pow [OF mB])
  have hA: "?h ^ (?nA - 1) \<le> 2" by (rule hi_pow [OF mA])
  have hB: "?h ^ (?nB - 1) \<le> 2" by (rule hi_pow [OF mB])
  let ?q = "Sa + Sb"
  have halfA: "?XA / 2 \<le> Sa"
  proof -
    have "?XA * (1 / 2) \<le> ?XA * ?l ^ (?nA - 1)" using XA0 lA by (rule mult_left_mono [rotated])
    with aL show ?thesis by simp
  qed
  have halfB: "?XB / 2 \<le> Sb"
  proof -
    have "?XB * (1 / 2) \<le> ?XB * ?l ^ (?nB - 1)" using XB0 lB by (rule mult_left_mono [rotated])
    with bL show ?thesis by simp
  qed
  have twoA: "Sa \<le> ?XA * 2"
  proof -
    have "?XA * ?h ^ (?nA - 1) \<le> ?XA * 2" using XA0 hA by (rule mult_left_mono [rotated])
    with aU show ?thesis by simp
  qed
  have twoB: "Sb \<le> ?XB * 2"
  proof -
    have "?XB * ?h ^ (?nB - 1) \<le> ?XB * 2" using XB0 hB by (rule mult_left_mono [rotated])
    with bU show ?thesis by simp
  qed
  have q0: "0 \<le> ?q" using halfA halfB XA0 XB0 by linarith
  have qz: "?q = 0 \<or> pow2 (- 126) \<le> ?q"
  proof (cases "?XA = 0 \<and> ?XB = 0")
    case True
    with twoA twoB halfA halfB have "?q = 0" by simp
    then show ?thesis by simp
  next
    case False
    with sum_zero_or_half [of RA] sum_zero_or_half [of RB] elA elB XA0 XB0
    have "1 / 2 \<le> ?XA + ?XB" by auto
    with halfA halfB have "1 / 4 \<le> ?q" by linarith
    moreover have "pow2 (- 126) \<le> 1 / 4" by (simp add: pow2_def)
    ultimately show ?thesis by linarith
  qed
  have qhi: "?q < 2 ^ 127"
  proof -
    have "?XA \<le> of_nat ?nA * 2 ^ 32" using elA by (intro sum_le_size) simp
    moreover have "?XB \<le> of_nat ?nB * 2 ^ 32" using elB by (intro sum_le_size) simp
    ultimately have "?XA + ?XB \<le> of_nat (?nA + ?nB) * 2 ^ 32" by (simp add: algebra_simps)
    also have "\<dots> \<le> 27 * 2 ^ 32"
    proof -
      have "(of_nat (?nA + ?nB) :: rat) \<le> 27" using n by (simp only: of_nat_le_numeral_iff)
      then show ?thesis by simp
    qed
    finally have "?XA + ?XB \<le> 27 * 2 ^ 32" .
    with twoA twoB have "?q \<le> 54 * 2 ^ 32" by linarith
    also have "\<dots> < (2 ^ 127 :: rat)" by simp
    finally show ?thesis .
  qed
  from fl_nonneg [OF q0 qz qhi] obtain S where
    S: "fl ?q = Finite S" and SL: "?q * ?l \<le> S" and SU: "S \<le> ?q * ?h" by blast
  have size: "size R - 1 = ?nA + ?nB - 1" by (simp add: R)
  have "(?XA + ?XB) * ?l ^ (?nA + ?nB - 1) \<le> ?q * ?l"
  proof -
    have "?l ^ (?nA + ?nB - 1) \<le> ?l ^ ?nA" using l01 nB by (intro power_decreasing) simp_all
    then have 1: "?XA * ?l ^ (?nA + ?nB - 1) \<le> ?XA * ?l ^ ?nA"
      using XA0 by (rule mult_left_mono)
    have "?l ^ (?nA + ?nB - 1) \<le> ?l ^ ?nB" using l01 nA by (intro power_decreasing) simp_all
    then have 2: "?XB * ?l ^ (?nA + ?nB - 1) \<le> ?XB * ?l ^ ?nB"
      using XB0 by (rule mult_left_mono)
    have "?XA * ?l ^ ?nA = (?XA * ?l ^ (?nA - 1)) * ?l"
      using nA by (cases ?nA) simp_all
    also have "\<dots> \<le> Sa * ?l" using aL l01 by (simp add: mult_right_mono)
    finally have 3: "?XA * ?l ^ ?nA \<le> Sa * ?l" .
    have "?XB * ?l ^ ?nB = (?XB * ?l ^ (?nB - 1)) * ?l"
      using nB by (cases ?nB) simp_all
    also have "\<dots> \<le> Sb * ?l" using bL l01 by (simp add: mult_right_mono)
    finally have 4: "?XB * ?l ^ ?nB \<le> Sb * ?l" .
    from 1 2 3 4 show ?thesis by (simp add: algebra_simps)
  qed
  with SL have L: "(?XA + ?XB) * ?l ^ (?nA + ?nB - 1) \<le> S" by linarith
  have "?q * ?h \<le> (?XA + ?XB) * ?h ^ (?nA + ?nB - 1)"
  proof -
    have "?h ^ ?nA \<le> ?h ^ (?nA + ?nB - 1)" using h1 nB by (intro power_increasing) simp_all
    then have 1: "?XA * ?h ^ ?nA \<le> ?XA * ?h ^ (?nA + ?nB - 1)"
      using XA0 by (rule mult_left_mono)
    have "?h ^ ?nB \<le> ?h ^ (?nA + ?nB - 1)" using h1 nA by (intro power_increasing) simp_all
    then have 2: "?XB * ?h ^ ?nB \<le> ?XB * ?h ^ (?nA + ?nB - 1)"
      using XB0 by (rule mult_left_mono)
    have "Sa * ?h \<le> (?XA * ?h ^ (?nA - 1)) * ?h" using aU h1 by (simp add: mult_right_mono)
    also have "\<dots> = ?XA * ?h ^ ?nA" using nA by (cases ?nA) simp_all
    finally have 3: "Sa * ?h \<le> ?XA * ?h ^ ?nA" .
    have "Sb * ?h \<le> (?XB * ?h ^ (?nB - 1)) * ?h" using bU h1 by (simp add: mult_right_mono)
    also have "\<dots> = ?XB * ?h ^ ?nB" using nB by (cases ?nB) simp_all
    finally have 4: "Sb * ?h \<le> ?XB * ?h ^ ?nB" .
    from 1 2 3 4 show ?thesis by (simp add: algebra_simps)
  qed
  with SU have U: "S \<le> (?XA + ?XB) * ?h ^ (?nA + ?nB - 1)" by linarith
  from S L U show ?case by (simp add: a b R)
qed

text \<open>
  Above \<open>2^24\<close> the conversion rounds: \<open>16777217\<close> becomes \<open>16777216\<close>, the tie
  \<open>16777219\<close> goes to the even neighbour, and \<open>-2147483647\<close> becomes \<open>-2^31\<close>.
\<close>

lemma fl_rounds:
  "fl 16777217 = Finite 16777216"
  "fl 16777219 = Finite 16777220"
  "fl (- 2147483647) = Finite (- 2147483648)"
  "fl (1 / 3) = Finite (11184811 / 33554432)"
  by code_simp+

section \<open>Corpora beyond the table and beyond 32 bits\<close>

lemma transitions_chars: "transitions ws = length (concat ws) + length ws"
  by (induction ws) (simp_all add: transitions_def)

lemma transitions_empties: "transitions (replicate n []) = n"
  by (simp add: transitions_def sum_list_replicate)

lemma counter_no_key_error: "counter ws \<noteq> Inl KeyError"
  using counter_result [of ws] by (auto split: if_splits)

lemma counter_index_error:
  assumes "x \<in> set (concat ws)" and "getitem (stoi ws) x = Inr a" and "27 \<le> a"
  shows "counter ws = Inl IndexError"
proof -
  from assms(2,3) have "\<not> in_table (stoi ws) x" by (simp add: in_table_iff)
  with assms(1) have "\<not> (\<forall>x\<in>set (concat ws). in_table (stoi ws) x)" by blast
  with counter_result [of ws] show ?thesis by (simp only: if_False)
qed

lemma counter_few_chars:
  assumes "length (chars ws) \<le> 26"
  shows "\<exists>M. counter ws = Inr M"
proof -
  from assms have "\<forall>x\<in>set (concat ws). in_table (stoi ws) x"
    by (blast intro: few_chars_in_table)
  with counter_result [of ws] show ?thesis by auto
qed

lemma stoi_chars: "chars ws = chars vs \<Longrightarrow> stoi ws = stoi vs"
  by (simp only: stoi_def)

lemma set_concat_replicate: "0 < n \<Longrightarrow> set (concat (replicate n w)) = set w"
  by (induction n) auto

section \<open>Row 0 in single precision\<close>

text \<open>
  Counts below \<open>2^31\<close> convert to finite numbers with a relative error of at most
  \<open>2^-24\<close>; a sum of at most 27 of them, added in any order, and the quotients by
  that sum keep the entries finite and their exact sum close to 1. Rows whose
  absolute values sum to at most \<open>2^24\<close> convert and add without any rounding.
\<close>

lemma int_float:
  fixes n :: int
  assumes "0 \<le> n" and "n < 2 ^ 31"
  shows "\<exists>v. fl (of_int n) = Finite v \<and> 0 \<le> v \<and> (n = 0 \<longrightarrow> v = 0)
    \<and> (0 < n \<longrightarrow> 1 / 2 \<le> v) \<and> v \<le> 2 ^ 32"
proof -
  let ?c = "of_int n :: rat"
  have c0: "0 \<le> ?c" using assms(1) by simp
  have "?c < of_int (2 ^ 31)" using assms(2) by (simp only: of_int_less_iff)
  then have c31: "?c < 2 ^ 31" by simp
  have cz: "?c = 0 \<or> pow2 (- 126) \<le> ?c"
  proof (cases "n = 0")
    case True
    then show ?thesis by simp
  next
    case False
    with assms(1) have "1 \<le> n" by simp
    then have "(of_int 1 :: rat) \<le> ?c" by (simp only: of_int_le_iff)
    moreover have "pow2 (- 126) \<le> 1" by (simp add: pow2_def)
    ultimately show ?thesis by simp
  qed
  have "?c < 2 ^ 127" using c31 by simp
  from fl_nonneg [OF c0 cz this] obtain v where
    v: "fl ?c = Finite v" and lo: "?c * (1 - eps) \<le> v" and hi: "v \<le> ?c * (1 + eps)"
    by blast
  have e: "0 \<le> 1 - eps" "1 / 2 \<le> 1 - eps" "1 + eps \<le> 2" "0 \<le> 1 + eps" by (simp_all add: eps_def)
  have "0 \<le> ?c * (1 - eps)" using c0 e(1) by (rule mult_nonneg_nonneg)
  with lo have v0: "0 \<le> v" by linarith
  have vz: "n = 0 \<longrightarrow> v = 0" using lo hi by auto
  have vh: "0 < n \<longrightarrow> 1 / 2 \<le> v"
  proof
    assume "0 < n"
    then have "1 \<le> n" by simp
    then have "(of_int 1 :: rat) \<le> ?c" by (simp only: of_int_le_iff)
    then have "1 \<le> ?c" by simp
    then have "1 * (1 / 2) \<le> ?c * (1 - eps)" using e(2) by (intro mult_mono) simp_all
    with lo show "1 / 2 \<le> v" by simp
  qed
  have "?c * (1 + eps) \<le> 2 ^ 31 * 2" using c31 c0 e(3,4) by (intro mult_mono) simp_all
  with hi have "v \<le> 2 ^ 32" by simp
  with v v0 vz vh show ?thesis by blast
qed

lemma cell_float:
  fixes x :: int32
  assumes "0 \<le> sint x"
  shows "\<exists>v. fl (of_int (sint x)) = Finite v \<and> 0 \<le> v \<and> (sint x = 0 \<longrightarrow> v = 0)
    \<and> (0 < sint x \<longrightarrow> 1 / 2 \<le> v) \<and> v \<le> 2 ^ 32"
proof (rule int_float [OF assms])
  show "sint x < 2 ^ 31" using sint_lt [of x] by simp
qed

lemma row_float:
  assumes "\<forall>x\<in>set row. 0 \<le> sint x"
  shows "to_float row = map Finite (map (\<lambda>x. val (fl (of_int (sint x)))) row)"
proof -
  have "fl (of_int (sint x)) = Finite (val (fl (of_int (sint x))))" if "x \<in> set row" for x
  proof -
    from that assms have "0 \<le> sint x" by blast
    from cell_float [OF this] obtain v where "fl (of_int (sint x)) = Finite v" by blast
    then show ?thesis by (simp only: val.simps)
  qed
  then show ?thesis by (simp only: to_float_def map_map comp_def cong: map_cong)
qed

lemma quotient_float:
  assumes x0: "0 \<le> x" and xz: "x = 0 \<or> 1 / 2 \<le> x" and xX: "x \<le> X"
    and SL: "X / 2 \<le> S" and SU: "S \<le> 2 * X" and XU: "X \<le> 27 * 2 ^ 32" and X0: "0 < X"
  shows "\<exists>p. fdiv (Finite x) (Finite S) = Finite p
    \<and> x / S * (1 - eps) \<le> p \<and> p \<le> x / S * (1 + eps)"
proof -
  have S0: "0 < S" using SL X0 by linarith
  let ?q = "x / S"
  have q0: "0 \<le> ?q" using x0 S0 by simp
  have qz: "?q = 0 \<or> pow2 (- 126) \<le> ?q"
  proof (cases "x = 0")
    case True
    then show ?thesis by simp
  next
    case False
    with xz have "1 / 2 \<le> x" by simp
    moreover have "S \<le> 54 * 2 ^ 32" using SU XU by linarith
    ultimately have "1 / 2 / (54 * 2 ^ 32) \<le> x / S"
      using S0 by (intro frac_le) simp_all
    moreover have "pow2 (- 126) \<le> 1 / 2 / (54 * 2 ^ 32)" by (simp add: pow2_def)
    ultimately show ?thesis by linarith
  qed
  have "x \<le> 2 * S" using xX SL by linarith
  then have "?q \<le> 2" using S0 by (simp add: pos_divide_le_eq)
  then have qhi: "?q < 2 ^ 127" by simp
  from fl_nonneg [OF q0 qz qhi] obtain p where
    "fl ?q = Finite p" "?q * (1 - eps) \<le> p" "p \<le> ?q * (1 + eps)" by blast
  moreover have "fdiv (Finite x) (Finite S) = fl ?q" using S0 by simp
  ultimately show ?thesis by auto
qed

lemma lo_pow_lin: "1 - of_nat n * eps \<le> (1 - eps) ^ n"
proof -
  have "1 + of_nat n * (- eps) \<le> (1 + (- eps)) ^ n"
    by (rule Bernoulli_inequality) (simp add: eps_def)
  then show ?thesis by simp
qed

lemma prob_cons:
  "prob (row # rest) = {Inr (map (\<lambda>x. fdiv x s) (to_float row)) | s. summed (mset (to_float row)) s}"
  by (simp add: prob_def Let_def)

lemma shaped_cons: "shaped M \<Longrightarrow> M = M ! 0 # tl M"
  by (cases M) (simp_all add: shaped_def)

lemma sum_list_nonneg_member:
  fixes xs :: "rat list"
  assumes "\<forall>x\<in>set xs. 0 \<le> x" and "x \<in> set xs"
  shows "x \<le> sum_list xs"
  using assms by (induction xs) (auto intro: add_increasing add_increasing2 sum_list_nonneg)

lemma sum_mset_list: "(\<Sum>v\<in>#mset ys. v) = sum_list ys" for ys :: "rat list"
  by (induction ys) simp_all

lemma sum_scaled_upper:
  fixes ys :: "rat list"
  assumes "\<forall>v\<in>set ys. f v \<le> v / S * c"
  shows "sum_list (map f ys) \<le> sum_list ys / S * c"
  using assms by (induction ys) (auto simp: algebra_simps add_divide_distrib)

lemma sum_scaled_lower:
  fixes ys :: "rat list"
  assumes "\<forall>v\<in>set ys. v / S * c \<le> f v"
  shows "sum_list ys / S * c \<le> sum_list (map f ys)"
  using assms by (induction ys) (auto simp: algebra_simps add_divide_distrib)

lemma prob_row:
  assumes sh: "shaped M" and nn: "\<forall>j<27. 0 \<le> sint (M ! 0 ! j)"
    and some: "\<exists>j<27. 0 < sint (M ! 0 ! j)"
  shows "prob M \<noteq> {}"
    and "\<forall>r\<in>prob M. \<exists>ps. r = Inr (map Finite ps) \<and> length ps = 27
      \<and> \<bar>sum_list ps - 1\<bar> \<le> 1 / 2 ^ 19
      \<and> (\<forall>j<27. 0 \<le> ps ! j \<and> (0 < sint (M ! 0 ! j) \<longrightarrow> 0 < ps ! j))"
proof -
  let ?row = "M ! 0"
  let ?g = "\<lambda>x :: int32. val (fl (of_int (sint x)))"
  let ?xs = "map ?g ?row"
  let ?X = "sum_list ?xs"
  have len: "length ?row = 27" using sh by (simp add: shaped_nth)
  have M: "M = ?row # tl M" by (rule shaped_cons [OF sh])
  have nn': "\<forall>x\<in>set ?row. 0 \<le> sint x"
    using nn len by (auto simp: in_set_conv_nth)
  have tf: "to_float ?row = map Finite ?xs" by (rule row_float [OF nn'])
  have cell: "0 \<le> ?g x \<and> (sint x = 0 \<longrightarrow> ?g x = 0) \<and> (0 < sint x \<longrightarrow> 1 / 2 \<le> ?g x)
      \<and> ?g x \<le> 2 ^ 32" if "x \<in> set ?row" for x
  proof -
    from that nn' have "0 \<le> sint x" by blast
    from cell_float [OF this] obtain v where
      v: "fl (of_int (sint x)) = Finite v" and p: "0 \<le> v" "sint x = 0 \<longrightarrow> v = 0"
      "0 < sint x \<longrightarrow> 1 / 2 \<le> v" "v \<le> 2 ^ 32" by blast
    from v have g: "?g x = v" by (simp only: val.simps)
    show ?thesis unfolding g using p by (intro conjI)
  qed
  have el: "0 \<le> v \<and> (v = 0 \<or> 1 / 2 \<le> v) \<and> v \<le> 2 ^ 32" if "v \<in> set ?xs" for v
  proof -
    from that obtain x where x: "x \<in> set ?row" and v: "v = ?g x" by auto
    from nn' x have "sint x = 0 \<or> 0 < sint x" by force
    with cell [OF x] show ?thesis unfolding v by blast
  qed
  have X_ge: "v \<le> ?X" if "v \<in> set ?xs" for v
    by (rule sum_list_nonneg_member [OF _ that]) (use el in blast)
  from some obtain j0 where j0: "j0 < 27" "0 < sint (?row ! j0)" by blast
  have "?row ! j0 \<in> set ?row" using j0 len by simp
  from cell [OF this] j0 have "1 / 2 \<le> ?g (?row ! j0)" by blast
  moreover have "?g (?row ! j0) \<in> set ?xs" using j0 len by simp
  ultimately have Xh: "1 / 2 \<le> ?X" using X_ge by force
  then have X0: "0 < ?X" by linarith
  let ?R = "mset ?xs"
  have R_el: "\<forall>v\<in>#?R. (v = 0 \<or> 1 / 2 \<le> v) \<and> v \<le> 2 ^ 32"
    using el by (simp only: set_mset_mset) blast
  have R_size: "size ?R = 27" using len by simp
  have R_ne: "?R \<noteq> {#}" using R_size by auto
  have R_sum: "(\<Sum>v\<in>#?R. v) = ?X" by (rule sum_mset_list)
  have XU: "?X \<le> 27 * 2 ^ 32"
  proof -
    have "(\<Sum>v\<in>#?R. v) \<le> of_nat (size ?R) * 2 ^ 32"
      by (rule sum_le_size) (use R_el in blast)
    then show ?thesis by (simp only: R_sum R_size of_nat_numeral)
  qed
  have img: "mset (map Finite ?xs) = image_mset Finite ?R" by (rule mset_map)
  show "prob M \<noteq> {}"
  proof -
    from summed_total [of "mset (to_float ?row)"] obtain s where "summed (mset (to_float ?row)) s"
      by blast
    then have "Inr (map (\<lambda>x. fdiv x s) (to_float ?row)) \<in> prob (?row # tl M)"
      unfolding prob_cons by blast
    with M show ?thesis by auto
  qed
  show "\<forall>r\<in>prob M. \<exists>ps. r = Inr (map Finite ps) \<and> length ps = 27
      \<and> \<bar>sum_list ps - 1\<bar> \<le> 1 / 2 ^ 19
      \<and> (\<forall>j<27. 0 \<le> ps ! j \<and> (0 < sint (M ! 0 ! j) \<longrightarrow> 0 < ps ! j))"
  proof
    fix r assume "r \<in> prob M"
    then have "r \<in> prob (?row # tl M)" using M by simp
    then obtain s where r: "r = Inr (map (\<lambda>x. fdiv x s) (to_float ?row))"
      and s: "summed (mset (to_float ?row)) s"
      unfolding prob_cons by blast
    from s have "summed (image_mset Finite ?R) s" by (simp only: tf img)
    moreover have "size ?R \<le> 27" by (simp only: R_size)
    ultimately have "\<exists>S. s = Finite S
        \<and> (\<Sum>v\<in>#?R. v) * (1 - eps) ^ (size ?R - 1) \<le> S
        \<and> S \<le> (\<Sum>v\<in>#?R. v) * (1 + eps) ^ (size ?R - 1)"
      by (rule summed_bound [OF _ refl R_ne R_el])
    moreover have "(27::nat) - 1 = 26" by simp
    ultimately obtain S where
      S: "s = Finite S" and SL0: "?X * (1 - eps) ^ 26 \<le> S" and SU0: "S \<le> ?X * (1 + eps) ^ 26"
      unfolding R_sum R_size by auto
    let ?a = "1 - 26 * eps"
    have a: "0 < ?a" "1 / 2 \<le> ?a" by (simp_all add: eps_def)
    have "?a \<le> (1 - eps) ^ 26" using lo_pow_lin [of 26] by simp
    then have "?X * ?a \<le> ?X * (1 - eps) ^ 26" using X0 by (simp add: mult_left_mono)
    with SL0 have Sa: "?X * ?a \<le> S" by linarith
    have "(1 + eps) ^ 26 * ?a \<le> 1" using hi_pow_inv [of 26] by simp
    then have "?X * ((1 + eps) ^ 26 * ?a) \<le> ?X * 1" using X0 by (intro mult_left_mono) simp_all
    then have "?X * (1 + eps) ^ 26 * ?a \<le> ?X" by (simp add: mult.assoc)
    moreover have "S * ?a \<le> ?X * (1 + eps) ^ 26 * ?a" using SU0 a(1) by (simp add: mult_right_mono)
    ultimately have aS: "S * ?a \<le> ?X" by linarith
    have "?X * (1 / 2) \<le> ?X * ?a" using X0 a(2) by (intro mult_left_mono) simp_all
    with Sa have SL: "?X / 2 \<le> S" by simp
    then have S0: "0 < S" using X0 by linarith
    have "S * (1 / 2) \<le> S * ?a" using S0 a(2) by (intro mult_left_mono) simp_all
    with aS have SU: "S \<le> 2 * ?X" by simp
    let ?f = "\<lambda>x. val (fdiv (Finite x) (Finite S))"
    let ?ps = "map ?f ?xs"
    have quot: "fdiv (Finite v) (Finite S) = Finite (?f v)
        \<and> v / S * (1 - eps) \<le> ?f v \<and> ?f v \<le> v / S * (1 + eps)" if "v \<in> set ?xs" for v
    proof -
      from el [OF that] have "0 \<le> v" "v = 0 \<or> 1 / 2 \<le> v" by blast+
      from quotient_float [OF this X_ge [OF that] SL SU XU X0] obtain p where
        p: "fdiv (Finite v) (Finite S) = Finite p" and b: "v / S * (1 - eps) \<le> p"
        "p \<le> v / S * (1 + eps)"
        by blast
      from p have f: "?f v = p" by (simp only: val.simps)
      show ?thesis unfolding f using p b by (intro conjI)
    qed
    have r': "r = Inr (map Finite ?ps)"
    proof -
      have "map (\<lambda>x. fdiv x s) (to_float ?row) = map (\<lambda>v. fdiv (Finite v) (Finite S)) ?xs"
        by (simp only: tf S map_map comp_def)
      also have "\<dots> = map (\<lambda>v. Finite (?f v)) ?xs"
        by (rule map_cong [OF refl]) (use quot in blast)
      also have "\<dots> = map Finite ?ps" by (simp only: map_map comp_def)
      finally show ?thesis by (simp only: r)
    qed
    have lenps: "length ?ps = 27" using len by simp
    have e: "0 \<le> 1 - eps" "0 < 1 - eps" "0 \<le> 1 + eps" by (simp_all add: eps_def)
    have upper: "sum_list ?ps \<le> ?X / S * (1 + eps)"
      by (rule sum_scaled_upper) (use quot in blast)
    have lower: "?X / S * (1 - eps) \<le> sum_list ?ps"
      by (rule sum_scaled_lower) (use quot in blast)
    have XS_hi: "?X / S \<le> 1 / ?a"
    proof -
      from Sa have "?X \<le> S / ?a" using a(1) by (simp add: pos_le_divide_eq)
      then show ?thesis using S0 by (simp add: pos_divide_le_eq mult.commute)
    qed
    have XS_lo: "?a \<le> ?X / S"
      using aS S0 by (simp add: pos_le_divide_eq mult.commute)
    have "sum_list ?ps \<le> 1 / ?a * (1 + eps)"
    proof -
      have "?X / S * (1 + eps) \<le> 1 / ?a * (1 + eps)" using XS_hi e(3) by (rule mult_right_mono)
      with upper show ?thesis by linarith
    qed
    also have "\<dots> \<le> 1 + 1 / 2 ^ 19" by (simp add: eps_def)
    finally have U: "sum_list ?ps \<le> 1 + 1 / 2 ^ 19" .
    have "1 - 1 / 2 ^ 19 \<le> ?a * (1 - eps)" by (simp add: eps_def)
    also have "\<dots> \<le> ?X / S * (1 - eps)" using XS_lo e(1) by (rule mult_right_mono)
    also have "\<dots> \<le> sum_list ?ps" by (rule lower)
    finally have L: "1 - 1 / 2 ^ 19 \<le> sum_list ?ps" .
    from U L have bound: "\<bar>sum_list ?ps - 1\<bar> \<le> 1 / 2 ^ 19" by linarith
    have entries: "\<forall>j<27. 0 \<le> ?ps ! j \<and> (0 < sint (M ! 0 ! j) \<longrightarrow> 0 < ?ps ! j)"
    proof (intro allI impI)
      fix j :: nat assume j: "j < 27"
      let ?x = "?row ! j"
      have xin: "?x \<in> set ?row" using j len by simp
      have vin: "?g ?x \<in> set ?xs" using xin by simp
      have pj: "?ps ! j = ?f (?g ?x)" using j len by simp
      from el [OF vin] have v0: "0 \<le> ?g ?x" by blast
      from quot [OF vin] have lo: "?g ?x / S * (1 - eps) \<le> ?f (?g ?x)" by blast
      have "0 \<le> ?g ?x / S * (1 - eps)" using v0 S0 e(1) by simp
      with lo have nonneg: "0 \<le> ?ps ! j" unfolding pj by linarith
      have pos: "0 < ?ps ! j" if "0 < sint ?x"
      proof -
        from cell [OF xin] that have "1 / 2 \<le> ?g ?x" by blast
        then have "0 < ?g ?x" by linarith
        then have "0 < ?g ?x / S * (1 - eps)" using S0 e(2) by simp
        with lo show ?thesis unfolding pj by linarith
      qed
      from nonneg pos show "0 \<le> ?ps ! j \<and> (0 < sint (M ! 0 ! j) \<longrightarrow> 0 < ?ps ! j)" by blast
    qed
    from r' lenps bound entries
    show "\<exists>ps. r = Inr (map Finite ps) \<and> length ps = 27
      \<and> \<bar>sum_list ps - 1\<bar> \<le> 1 / 2 ^ 19
      \<and> (\<forall>j<27. 0 \<le> ps ! j \<and> (0 < sint (M ! 0 ! j) \<longrightarrow> 0 < ps ! j))" by blast
  qed
qed

lemma abs_member_le_sum:
  fixes ns :: "int list"
  assumes "n \<in> set ns"
  shows "\<bar>n\<bar> \<le> (\<Sum>m\<leftarrow>ns. \<bar>m\<bar>)"
proof -
  have nn: "0 \<le> (\<Sum>m\<leftarrow>ks. \<bar>m\<bar>)" for ks :: "int list"
    by (induction ks) simp_all
  show ?thesis using assms
  proof (induction ns)
    case Nil
    then show ?case by simp
  next
    case (Cons k ks)
    show ?case
    proof (cases "n = k")
      case True
      with nn [of ks] show ?thesis by simp
    next
      case False
      with Cons have "\<bar>n\<bar> \<le> (\<Sum>m\<leftarrow>ks. \<bar>m\<bar>)" by simp
      then show ?thesis by simp
    qed
  qed
qed

lemma sum_mset_ints: "(\<Sum>m\<in>#mset ns. f m) = (\<Sum>m\<leftarrow>ns. f m)" for ns :: "int list" and f :: "int \<Rightarrow> int"
  by (induction ns) simp_all

lemma ints_exact:
  fixes ns :: "int list"
  assumes small: "(\<Sum>m\<leftarrow>ns. \<bar>m\<bar>) \<le> 2 ^ 24"
  shows "map (\<lambda>m. fl (of_int m)) ns = map (\<lambda>m. Finite (of_int m)) ns"
    and "summed (mset (map (\<lambda>m. Finite (of_int m)) ns)) s \<longleftrightarrow> s = Finite (of_int (sum_list ns))"
proof -
  show "map (\<lambda>m. fl (of_int m)) ns = map (\<lambda>m. Finite (of_int m)) ns"
  proof (rule map_cong [OF refl])
    fix m assume "m \<in> set ns"
    then have "\<bar>m\<bar> \<le> (\<Sum>m\<leftarrow>ns. \<bar>m\<bar>)" by (rule abs_member_le_sum)
    with small have "\<bar>m\<bar> \<le> 2 ^ 24" by linarith
    then show "fl (of_int m) = Finite (of_int m)" by (rule fl_int_exact)
  qed
  let ?A = "mset (map (\<lambda>m. Finite (of_int m)) ns)"
  have img: "?A = image_mset (\<lambda>m. Finite (of_int m)) (mset ns)" by (rule mset_map)
  have tot: "(\<Sum>m\<in>#mset ns. \<bar>m\<bar>) \<le> 2 ^ 24" using small by (simp only: sum_mset_ints)
  have val: "(\<Sum>m\<in>#mset ns. m) = sum_list ns" using sum_mset_ints [of "\<lambda>m. m" ns] by simp
  have only: "s' = Finite (of_int (sum_list ns))" if "summed ?A s'" for s'
    using summed_exact [OF that img tot] by (simp only: val)
  from summed_total [of ?A] obtain s0 where s0: "summed ?A s0" by blast
  with only have "summed ?A (Finite (of_int (sum_list ns)))" by blast
  with only show "summed ?A s \<longleftrightarrow> s = Finite (of_int (sum_list ns))" by blast
qed

lemma prob_exact:
  assumes sh: "shaped M" and small: "(\<Sum>m\<leftarrow>map sint (M ! 0). \<bar>m\<bar>) \<le> 2 ^ 24"
  shows "prob M = {Inr (map (\<lambda>m. fdiv (Finite (of_int m)) (Finite (of_int (sum_list (map sint (M ! 0))))))
      (map sint (M ! 0)))}"
proof -
  let ?ns = "map sint (M ! 0)"
  have M: "M = M ! 0 # tl M" by (rule shaped_cons [OF sh])
  have tf: "to_float (M ! 0) = map (\<lambda>m. Finite (of_int m)) ?ns"
  proof -
    have "to_float (M ! 0) = map (\<lambda>m. fl (of_int m)) ?ns"
      by (simp only: to_float_def map_map comp_def)
    then show ?thesis by (simp only: ints_exact(1) [OF small])
  qed
  have "prob (M ! 0 # tl M) = {Inr (map (\<lambda>x. fdiv x s) (map (\<lambda>m. Finite (of_int m)) ?ns))
      | s. s = Finite (of_int (sum_list ?ns))}"
    by (simp only: prob_cons tf ints_exact(2) [OF small])
  also have "\<dots> = {Inr (map (\<lambda>x. fdiv x (Finite (of_int (sum_list ?ns))))
      (map (\<lambda>m. Finite (of_int m)) ?ns))}"
    by blast
  also have "map (\<lambda>x. fdiv x (Finite (of_int (sum_list ?ns)))) (map (\<lambda>m. Finite (of_int m)) ?ns)
      = map (\<lambda>m. fdiv (Finite (of_int m)) (Finite (of_int (sum_list ?ns)))) ?ns"
    by (simp only: map_map comp_def)
  finally show ?thesis using M by simp
qed

lemma script_prob:
  assumes "counter ws = Inr M" and "draw (itos ws) M = Inr texts"
  shows "script ws = prob M"
  using assms by (simp add: script_def)

lemma script_draw_error:
  assumes "counter ws = Inr M" and "draw (itos ws) M = Inl e"
  shows "script ws = {Inl e}"
  using assms by (simp add: script_def)

lemma itos_stoi: "stoi ws = stoi vs \<Longrightarrow> itos ws = itos vs"
  by (simp only: itos_def)

lemma script_cong:
  assumes "counter ws = counter vs" and "itos ws = itos vs"
  shows "script ws = script vs"
  using assms by (simp only: script_def)

lemma count_words_cons:
  "count_words st (w # ws) N =
     (case count_words st [w] N of Inl e \<Rightarrow> Inl e | Inr N' \<Rightarrow> count_words st ws N')"
  by (simp add: Let_def split: sum.splits)

lemma stoi_with_empties: "stoi (w # replicate n []) = stoi [w]"
proof -
  have "set (concat (w # replicate n [])) = set (concat [w])" by simp
  then have "chars (w # replicate n []) = chars [w]" by (rule chars_set)
  then show ?thesis by (rule stoi_chars)
qed

lemma counter_with_empties:
  assumes "counter [w] = Inr N"
  shows "counter (w # replicate n []) = Inr (N[0 := (N ! 0)[0 := N ! 0 ! 0 + of_nat n]])"
proof -
  let ?st = "stoi [w]"
  have one: "count_words ?st [w] (zeros 27 27) = Inr N"
    using assms by (simp only: counter_def)
  have sh: "shaped N" by (rule counter_cells(1) [OF assms])
  have "counter (w # replicate n []) = count_words ?st (w # replicate n []) (zeros 27 27)"
    by (simp only: counter_def stoi_with_empties)
  also have "\<dots> = count_words ?st (replicate n []) N"
    by (subst count_words_cons) (simp only: one sum.case)
  also have "\<dots> = Inr (N[0 := (N ! 0)[0 := N ! 0 ! 0 + of_nat n]])"
    by (rule count_words_empties [OF stoi_boundary sh])
  finally show ?thesis .
qed

lemma script_with_empties:
  assumes "counter [w] = Inr N"
  shows "script (w # replicate n []) =
    (case draw (itos [w]) (N[0 := (N ! 0)[0 := N ! 0 ! 0 + of_nat n]]) of
       Inl e \<Rightarrow> {Inl e}
     | Inr texts \<Rightarrow> prob (N[0 := (N ! 0)[0 := N ! 0 ! 0 + of_nat n]]))"
  by (simp only: script_def counter_with_empties [OF assms] sum.case
      itos_stoi [OF stoi_with_empties])

lemma script_row:
  assumes run: "counter ws = Inr M" and drawn: "draw (itos ws) M = Inr texts"
    and ne: "ws \<noteq> []" and small: "\<forall>j<27. bigram_count (stoi ws) ws 0 j < 2 ^ 31"
  shows "script ws \<noteq> {}"
    and "\<forall>r\<in>script ws. \<exists>ps. r = Inr (map Finite ps) \<and> length ps = 27
      \<and> \<bar>sum_list ps - 1\<bar> \<le> 1 / 2 ^ 19
      \<and> (\<forall>j<27. 0 \<le> ps ! j \<and> (0 < bigram_count (stoi ws) ws 0 j \<longrightarrow> 0 < ps ! j))"
proof -
  let ?c = "\<lambda>j. bigram_count (stoi ws) ws 0 j"
  have sh: "shaped M" by (rule counter_cells(1) [OF run])
  have cell: "sint (M ! 0 ! j) = int (?c j)" if j: "j < 27" for j
  proof -
    have "M ! 0 ! j = of_nat (?c j)" by (rule counter_cells(2) [OF run _ j]) simp
    moreover from small j have "?c j < 2 ^ 31" by blast
    ultimately show ?thesis by (simp only: sint_of_nat_small)
  qed
  have nn: "\<forall>j<27. 0 \<le> sint (M ! 0 ! j)"
  proof (intro allI impI)
    fix j :: nat assume "j < 27"
    then show "0 \<le> sint (M ! 0 ! j)" by (simp only: cell of_nat_0_le_iff)
  qed
  have "length ws \<le> (\<Sum>j<27. ?c j)"
    by (rule row0_words [OF stoi_boundary counter_in_table [OF run]])
  moreover from ne have "0 < length ws" by simp
  ultimately have pos: "0 < (\<Sum>j<27. ?c j)" by linarith
  have "\<exists>j<27. 0 < ?c j"
  proof (rule ccontr)
    assume "\<not> (\<exists>j<27. 0 < ?c j)"
    then have "\<forall>j\<in>{..<27}. ?c j = 0" by simp
    then have "(\<Sum>j<27. ?c j) = 0" by (rule sum.neutral)
    with pos show False by simp
  qed
  then obtain j where j: "j < 27" "0 < ?c j" by blast
  then have "0 < sint (M ! 0 ! j)" by (simp only: cell of_nat_0_less_iff)
  with j(1) have some: "\<exists>j<27. 0 < sint (M ! 0 ! j)" by blast
  have eq: "script ws = prob M" by (rule script_prob [OF run drawn])
  show "script ws \<noteq> {}" unfolding eq by (rule prob_row(1) [OF sh nn some])
  show "\<forall>r\<in>script ws. \<exists>ps. r = Inr (map Finite ps) \<and> length ps = 27
      \<and> \<bar>sum_list ps - 1\<bar> \<le> 1 / 2 ^ 19
      \<and> (\<forall>j<27. 0 \<le> ps ! j \<and> (0 < ?c j \<longrightarrow> 0 < ps ! j))"
  proof
    fix r assume "r \<in> script ws"
    then have "r \<in> prob M" by (simp only: eq)
    with prob_row(2) [OF sh nn some] obtain ps where ps: "r = Inr (map Finite ps)" "length ps = 27"
      "\<bar>sum_list ps - 1\<bar> \<le> 1 / 2 ^ 19"
      "\<forall>j<27. 0 \<le> ps ! j \<and> (0 < sint (M ! 0 ! j) \<longrightarrow> 0 < ps ! j)"
      by blast
    have "\<forall>j<27. 0 \<le> ps ! j \<and> (0 < ?c j \<longrightarrow> 0 < ps ! j)"
    proof (intro allI impI)
      fix j :: nat assume j: "j < 27"
      have "0 < sint (M ! 0 ! j) \<longleftrightarrow> 0 < ?c j" by (simp only: cell [OF j] of_nat_0_less_iff)
      with ps(4) j show "0 \<le> ps ! j \<and> (0 < ?c j \<longrightarrow> 0 < ps ! j)" by blast
    qed
    with ps(1-3) show "\<exists>ps. r = Inr (map Finite ps) \<and> length ps = 27
      \<and> \<bar>sum_list ps - 1\<bar> \<le> 1 / 2 ^ 19
      \<and> (\<forall>j<27. 0 \<le> ps ! j \<and> (0 < ?c j \<longrightarrow> 0 < ps ! j))" by blast
  qed
qed

lemma empty_word_count:
  assumes "[] \<in> set ws"
  shows "0 < bigram_count (stoi ws) ws 0 0"
  using assms
proof -
  have "0 < bigram_count st ws 0 0" if "[] \<in> set ws" and "getitem st (CHR ''.'') = Inr 0" for st
    using that
  proof (induction ws)
    case Nil
    then show ?case by simp
  next
    case (Cons w ws)
    show ?case
    proof (cases "w = []")
      case True
      then show ?thesis using Cons.prems(2)
        by (simp add: bigram_count_def follows_def wrapped_def)
    next
      case False
      with Cons have "0 < bigram_count st ws 0 0" by simp
      then show ?thesis by (simp add: bigram_count_def)
    qed
  qed
  from this [OF assms stoi_boundary] show ?thesis .
qed

lemma abs_sum_nonneg:
  fixes ns :: "int list"
  assumes "\<forall>m\<in>set ns. 0 \<le> m"
  shows "(\<Sum>m\<leftarrow>ns. \<bar>m\<bar>) = sum_list ns"
  using assms by (induction ns) simp_all

lemma member_le_sum_map:
  fixes f :: "'a \<Rightarrow> nat"
  assumes "j \<in> set js"
  shows "f j \<le> (\<Sum>k\<leftarrow>js. f k)"
  using assms by (induction js) auto

lemma int_sum_list: "(\<Sum>j\<leftarrow>js. int (f j)) = int (\<Sum>j\<leftarrow>js. f j)"
  by (induction js) simp_all

lemma exact_quotients:
  fixes ns :: "int list"
  assumes nn: "\<forall>m\<in>set ns. 0 \<le> m" and pos: "0 < sum_list ns" and small: "sum_list ns \<le> 2 ^ 24"
  shows "\<exists>ps. map (\<lambda>m. fdiv (Finite (of_int m)) (Finite (of_int (sum_list ns)))) ns = map Finite ps
    \<and> length ps = length ns \<and> \<bar>sum_list ps - 1\<bar> \<le> 1 / 2 ^ 24"
proof -
  let ?S = "of_int (sum_list ns) :: rat"
  let ?ys = "map of_int ns :: rat list"
  let ?f = "\<lambda>v. val (fdiv (Finite v) (Finite ?S))"
  have S0: "0 < ?S" using pos by simp
  have "?S \<le> of_int (2 ^ 24)" using small by (simp only: of_int_le_iff)
  then have SU: "?S \<le> 2 ^ 24" by simp
  have q: "\<exists>p. fdiv (Finite (of_int m)) (Finite ?S) = Finite p
      \<and> of_int m / ?S * (1 - eps) \<le> p \<and> p \<le> of_int m / ?S * (1 + eps)"
    if m: "m \<in> set ns" for m
  proof -
    let ?q = "of_int m / ?S :: rat"
    from m nn have m0: "0 \<le> m" by blast
    then have q0: "0 \<le> ?q" using S0 by simp
    have "\<bar>m\<bar> \<le> (\<Sum>k\<leftarrow>ns. \<bar>k\<bar>)" by (rule abs_member_le_sum [OF m])
    moreover have "(\<Sum>k\<leftarrow>ns. \<bar>k\<bar>) = sum_list ns"
      by (rule abs_sum_nonneg [OF nn])
    ultimately have "m \<le> sum_list ns" using m0 by simp
    then have "(of_int m :: rat) \<le> ?S" by (simp only: of_int_le_iff)
    then have "?q \<le> 1" using S0 by (simp add: pos_divide_le_eq)
    then have qhi: "?q < 2 ^ 127" by simp
    have qz: "?q = 0 \<or> pow2 (- 126) \<le> ?q"
    proof (cases "m = 0")
      case True
      then show ?thesis by simp
    next
      case False
      with m0 have "1 \<le> m" by simp
      then have "(of_int 1 :: rat) \<le> of_int m" by (simp only: of_int_le_iff)
      then have "(1 :: rat) \<le> of_int m" by simp
      then have "1 / 2 ^ 24 \<le> ?q" using S0 SU by (intro frac_le) simp_all
      moreover have "pow2 (- 126) \<le> 1 / 2 ^ 24" by (simp add: pow2_def)
      ultimately show ?thesis by linarith
    qed
    from fl_nonneg [OF q0 qz qhi] obtain p where
      "fl ?q = Finite p" "?q * (1 - eps) \<le> p" "p \<le> ?q * (1 + eps)" by blast
    moreover have "fdiv (Finite (of_int m)) (Finite ?S) = fl ?q" using S0 by simp
    ultimately show ?thesis by auto
  qed
  have fin: "fdiv (Finite (of_int m)) (Finite ?S) = Finite (?f (of_int m))" if "m \<in> set ns" for m
  proof -
    from q [OF that] obtain p where "fdiv (Finite (of_int m)) (Finite ?S) = Finite p" by blast
    then show ?thesis by (simp only: val.simps)
  qed
  have eq: "map (\<lambda>m. fdiv (Finite (of_int m)) (Finite ?S)) ns = map Finite (map ?f ?ys)"
    using fin by (simp only: map_map comp_def cong: map_cong)
  have up: "\<forall>v\<in>set ?ys. ?f v \<le> v / ?S * (1 + eps)"
  proof
    fix v assume "v \<in> set ?ys"
    then obtain m where m: "m \<in> set ns" and v: "v = of_int m" by auto
    from q [OF m] obtain p where p: "fdiv (Finite (of_int m)) (Finite ?S) = Finite p"
      "p \<le> of_int m / ?S * (1 + eps)" by blast
    from p(1) have "?f (of_int m) = p" by (simp only: val.simps)
    with p(2) show "?f v \<le> v / ?S * (1 + eps)" by (simp only: v)
  qed
  have lo: "\<forall>v\<in>set ?ys. v / ?S * (1 - eps) \<le> ?f v"
  proof
    fix v assume "v \<in> set ?ys"
    then obtain m where m: "m \<in> set ns" and v: "v = of_int m" by auto
    from q [OF m] obtain p where p: "fdiv (Finite (of_int m)) (Finite ?S) = Finite p"
      "of_int m / ?S * (1 - eps) \<le> p" by blast
    from p(1) have "?f (of_int m) = p" by (simp only: val.simps)
    with p(2) show "v / ?S * (1 - eps) \<le> ?f v" by (simp only: v)
  qed
  have tot: "sum_list ?ys = ?S" by (induction ns) simp_all
  have one: "sum_list ?ys / ?S = 1" using S0 by (simp only: tot) simp
  have "sum_list (map ?f ?ys) \<le> sum_list ?ys / ?S * (1 + eps)" by (rule sum_scaled_upper [OF up])
  then have hi: "sum_list (map ?f ?ys) \<le> 1 + eps" by (simp only: one mult_1)
  have "sum_list ?ys / ?S * (1 - eps) \<le> sum_list (map ?f ?ys)" by (rule sum_scaled_lower [OF lo])
  then have low: "1 - eps \<le> sum_list (map ?f ?ys)" by (simp only: one mult_1)
  have "\<bar>sum_list (map ?f ?ys) - 1\<bar> \<le> eps" using hi low by linarith
  then have "\<bar>sum_list (map ?f ?ys) - 1\<bar> \<le> 1 / 2 ^ 24" by (simp only: eps_def)
  moreover have "length (map ?f ?ys) = length ns" by simp
  ultimately show ?thesis using eq by blast
qed

lemma prob_row_small:
  assumes sh: "shaped M" and nn: "\<forall>m\<in>set (map sint (M ! 0)). 0 \<le> m"
    and pos: "0 < sum_list (map sint (M ! 0))" and small: "sum_list (map sint (M ! 0)) \<le> 2 ^ 24"
  shows "\<forall>r\<in>prob M. \<exists>ps. r = Inr (map Finite ps) \<and> length ps = 27
    \<and> \<bar>sum_list ps - 1\<bar> \<le> 1 / 2 ^ 24"
proof -
  let ?ns = "map sint (M ! 0)"
  have len: "length ?ns = 27" using shaped_nth [OF sh, of 0] by simp
  have "(\<Sum>m\<leftarrow>?ns. \<bar>m\<bar>) = sum_list ?ns"
    by (rule abs_sum_nonneg [OF nn])
  with small have small': "(\<Sum>m\<leftarrow>?ns. \<bar>m\<bar>) \<le> 2 ^ 24" by (simp only:)
  from exact_quotients [OF nn pos small] obtain ps where
    ps: "map (\<lambda>m. fdiv (Finite (of_int m)) (Finite (of_int (sum_list ?ns)))) ?ns = map Finite ps"
      "length ps = length ?ns" "\<bar>sum_list ps - 1\<bar> \<le> 1 / 2 ^ 24"
    by blast
  have "prob M = {Inr (map Finite ps)}" by (simp only: prob_exact [OF sh small'] ps(1))
  moreover have "length ps = 27" using ps(2) len by (simp only:)
  ultimately show ?thesis using ps(3) by blast
qed

lemma script_row_small:
  assumes run: "counter ws = Inr M" and drawn: "draw (itos ws) M = Inr texts"
    and ne: "ws \<noteq> []" and small: "(\<Sum>j\<leftarrow>[0..<27]. bigram_count (stoi ws) ws 0 j) \<le> 2 ^ 24"
  shows "\<forall>r\<in>script ws. \<exists>ps. r = Inr (map Finite ps) \<and> length ps = 27
    \<and> \<bar>sum_list ps - 1\<bar> \<le> 1 / 2 ^ 24"
proof -
  let ?c = "\<lambda>j. bigram_count (stoi ws) ws 0 j"
  have sh: "shaped M" by (rule counter_cells(1) [OF run])
  have len: "length (M ! 0) = 27" using shaped_nth [OF sh, of 0] by simp
  have le: "?c j \<le> 2 ^ 24" if j: "j < 27" for j
  proof -
    from j have "j \<in> set [0..<27]" by simp
    then have "?c j \<le> (\<Sum>j\<leftarrow>[0..<27]. ?c j)"
      by (rule member_le_sum_map)
    with small show ?thesis by linarith
  qed
  have cell: "sint (M ! 0 ! j) = int (?c j)" if j: "j < 27" for j
  proof -
    have "M ! 0 ! j = of_nat (?c j)" by (rule counter_cells(2) [OF run _ j]) simp
    moreover from le [OF j] have "?c j < 2 ^ 31" by simp
    ultimately show ?thesis by (simp only: sint_of_nat_small)
  qed
  have row: "map sint (M ! 0) = map (\<lambda>j. int (?c j)) [0..<27]"
  proof (rule nth_equalityI)
    show "length (map sint (M ! 0)) = length (map (\<lambda>j. int (?c j)) [0..<27])" using len by simp
    fix j assume "j < length (map sint (M ! 0))"
    then have j: "j < 27" using len by simp
    then show "map sint (M ! 0) ! j = map (\<lambda>j. int (?c j)) [0..<27] ! j"
      using len cell [OF j] by (simp del: upt_Suc)
  qed
  have tot: "sum_list (map sint (M ! 0)) = int (\<Sum>j\<leftarrow>[0..<27]. ?c j)"
    unfolding row by (rule int_sum_list)
  have nn: "\<forall>m\<in>set (map sint (M ! 0)). 0 \<le> m" unfolding row by auto
  have "length ws \<le> (\<Sum>j<27. ?c j)"
    by (rule row0_words [OF stoi_boundary counter_in_table [OF run]])
  moreover have "(\<Sum>j<27. ?c j) = (\<Sum>j\<leftarrow>[0..<27]. ?c j)"
    by (simp only: interv_sum_list_conv_sum_set_nat atLeast_upt [symmetric])
  moreover from ne have "0 < length ws" by simp
  ultimately have "0 < (\<Sum>j\<leftarrow>[0..<27]. ?c j)" by linarith
  then have pos: "0 < sum_list (map sint (M ! 0))" by (simp only: tot of_nat_0_less_iff)
  have "int (\<Sum>j\<leftarrow>[0..<27]. ?c j) \<le> int (2 ^ 24)" using small by (simp only: of_nat_le_iff)
  then have sm: "sum_list (map sint (M ! 0)) \<le> 2 ^ 24" by (simp only: tot) simp
  show ?thesis
    unfolding script_prob [OF run drawn] by (rule prob_row_small [OF sh nn pos sm])
qed

section \<open>Runs on particular corpora\<close>

lemma isInr_projr: "(case x of Inl e \<Rightarrow> False | Inr y \<Rightarrow> True) \<Longrightarrow> x = Inr (projr x)"
  by (cases x) simp_all

lemma prob_zeros: "prob (zeros 27 27) = {Inr (replicate 27 NaN)}"
proof -
  have small: "(\<Sum>m\<leftarrow>map sint (zeros 27 27 ! 0). \<bar>m\<bar>) \<le> 2 ^ 24" by code_simp
  have v: "map (\<lambda>m. fdiv (Finite (of_int m)) (Finite (of_int (sum_list (map sint (zeros 27 27 ! 0))))))
      (map sint (zeros 27 27 ! 0)) = replicate 27 NaN"
    by code_simp
  show ?thesis by (simp only: prob_exact [OF shaped_zeros small] v)
qed

lemma draw_empty: "draw (itos []) (zeros 27 27) = Inl KeyError"
  by code_simp

lemma counter_empty: "counter [] = Inr (zeros 27 27)"
  by code_simp

lemma script_empty: "script [] = {Inl KeyError}"
  by (rule script_draw_error [OF counter_empty draw_empty])

lemma script_emma: "script [''emma'', ''olivia''] = {Inl KeyError}"
proof -
  have c: "counter [''emma'', ''olivia''] = Inr (projr (counter [''emma'', ''olivia'']))"
    by (rule isInr_projr) code_simp
  have d: "draw (itos [''emma'', ''olivia'']) (projr (counter [''emma'', ''olivia''])) = Inl KeyError"
    by code_simp
  show ?thesis by (rule script_draw_error [OF c d])
qed

lemma script_two:
  "script [''abcdefghijklmnopqrstuvwxyz'', ''emma'']
     = {Inr (map Finite ([0, 1 / 2, 0, 0, 0, 1 / 2] @ replicate 21 0))}"
proof -
  let ?ws = "[''abcdefghijklmnopqrstuvwxyz'', ''emma'']"
  let ?M = "projr (counter ?ws)"
  have c: "counter ?ws = Inr ?M"
    by (rule isInr_projr) code_simp
  have d: "draw (itos ?ws) ?M = Inr (projr (draw (itos ?ws) ?M))"
    by (rule isInr_projr) code_simp
  have sh: "shaped ?M" by (rule counter_cells(1) [OF c])
  have small: "(\<Sum>m\<leftarrow>map sint (?M ! 0). \<bar>m\<bar>) \<le> 2 ^ 24" by code_simp
  have v: "map (\<lambda>m. fdiv (Finite (of_int m)) (Finite (of_int (sum_list (map sint (?M ! 0))))))
      (map sint (?M ! 0)) = map Finite ([0, 1 / 2, 0, 0, 0, 1 / 2] @ replicate 21 0)"
    by code_simp
  show ?thesis by (simp only: script_prob [OF c d] prob_exact [OF sh small] v)
qed

lemma script_exact:
  assumes c: "counter ws = Inr M" and d: "draw (itos ws) M = Inr texts"
    and small: "(\<Sum>m\<leftarrow>map sint (M ! 0). \<bar>m\<bar>) \<le> 2 ^ 24"
  shows "script ws = {Inr (map (\<lambda>m. fdiv (Finite (of_int m))
      (Finite (of_int (sum_list (map sint (M ! 0)))))) (map sint (M ! 0)))}"
  by (simp only: script_prob [OF c d] prob_exact [OF counter_cells(1) [OF c] small])

lemma finite_vector: "map Finite ps = map Finite qs \<Longrightarrow> ps = qs"
  by (simp add: inj_map_eq_map inj_def)

lemma script_alphabet_empty:
  "script [''abcdefghijklmnopqrstuvwxyz'', []]
     = {Inr (map Finite ([1 / 2, 1 / 2] @ replicate 25 0))}"
proof -
  let ?ws = "[''abcdefghijklmnopqrstuvwxyz'', []]"
  let ?M = "projr (counter ?ws)"
  have c: "counter ?ws = Inr ?M"
    by (rule isInr_projr) code_simp
  have d: "draw (itos ?ws) ?M = Inr (projr (draw (itos ?ws) ?M))"
    by (rule isInr_projr) code_simp
  have small: "(\<Sum>m\<leftarrow>map sint (?M ! 0). \<bar>m\<bar>) \<le> 2 ^ 24" by code_simp
  have v: "map (\<lambda>m. fdiv (Finite (of_int m)) (Finite (of_int (sum_list (map sint (?M ! 0))))))
      (map sint (?M ! 0)) = map Finite ([1 / 2, 1 / 2] @ replicate 25 0)"
    by code_simp
  show ?thesis by (simp only: script_exact [OF c d small] v)
qed

lemma script_a_empty_b: "script [''a'', [], ''b''] = {Inl KeyError}"
proof -
  have c: "counter [''a'', [], ''b''] = Inr (projr (counter [''a'', [], ''b'']))"
    by (rule isInr_projr) code_simp
  have d: "draw (itos [''a'', [], ''b'']) (projr (counter [''a'', [], ''b''])) = Inl KeyError"
    by code_simp
  show ?thesis by (rule script_draw_error [OF c d])
qed

lemma script_wrapped_minus:
  "script (''abcdefghijklmnopqrstuvwxyz'' # replicate (2 ^ 32 - 1) [])
     = {Inr (NegInf # PosInf # replicate 25 NaN)}"
proof -
  let ?a = "''abcdefghijklmnopqrstuvwxyz''"
  let ?N = "projr (counter [?a])"
  let ?M = "?N[0 := (?N ! 0)[0 := ?N ! 0 ! 0 + (- 1)]]"
  have c1: "counter [?a] = Inr ?N"
    by (rule isInr_projr) code_simp
  have w: "(of_nat (2 ^ 32 - 1) :: int32) = - 1" by simp
  have c: "counter (?a # replicate (2 ^ 32 - 1) []) = Inr ?M"
    by (simp only: counter_with_empties [OF c1] w)
  have "draw (itos [?a]) ?M = Inr (projr (draw (itos [?a]) ?M))"
    by (rule isInr_projr) code_simp
  then have d: "draw (itos (?a # replicate (2 ^ 32 - 1) [])) ?M = Inr (projr (draw (itos [?a]) ?M))"
    by (simp only: itos_stoi [OF stoi_with_empties])
  have small: "(\<Sum>m\<leftarrow>map sint (?M ! 0). \<bar>m\<bar>) \<le> 2 ^ 24" by code_simp
  have v: "map (\<lambda>m. fdiv (Finite (of_int m)) (Finite (of_int (sum_list (map sint (?M ! 0))))))
      (map sint (?M ! 0)) = NegInf # PosInf # replicate 25 NaN"
    by code_simp
  show ?thesis by (simp only: script_exact [OF c d small] v)
qed

lemma script_wrapped_zero:
  "script (''abcdefghijklmnopqrstuvwxyz'' # replicate (2 ^ 32) [])
     = {Inr (Finite 0 # Finite 1 # replicate 25 (Finite 0))}"
proof -
  let ?a = "''abcdefghijklmnopqrstuvwxyz''"
  let ?N = "projr (counter [?a])"
  let ?M = "?N[0 := (?N ! 0)[0 := ?N ! 0 ! 0 + 0]]"
  have c1: "counter [?a] = Inr ?N"
    by (rule isInr_projr) code_simp
  have w: "(of_nat (2 ^ 32) :: int32) = 0" by simp
  have c: "counter (?a # replicate (2 ^ 32) []) = Inr ?M"
    by (simp only: counter_with_empties [OF c1] w)
  have "draw (itos [?a]) ?M = Inr (projr (draw (itos [?a]) ?M))"
    by (rule isInr_projr) code_simp
  then have d: "draw (itos (?a # replicate (2 ^ 32) [])) ?M = Inr (projr (draw (itos [?a]) ?M))"
    by (simp only: itos_stoi [OF stoi_with_empties])
  have small: "(\<Sum>m\<leftarrow>map sint (?M ! 0). \<bar>m\<bar>) \<le> 2 ^ 24" by code_simp
  have v: "map (\<lambda>m. fdiv (Finite (of_int m)) (Finite (of_int (sum_list (map sint (?M ! 0))))))
      (map sint (?M ! 0)) = Finite 0 # Finite 1 # replicate 25 (Finite 0)"
    by code_simp
  show ?thesis by (simp only: script_exact [OF c d small] v)
qed

section \<open>The claims\<close>

subsection \<open>C1: what a cell of the count table holds\<close>

text \<open>
  C1. For every corpus on which the counting pass finishes, cell \<open>[i, j]\<close> of the
  27 by 27 count table is the number of positions at which the character with index
  \<open>j\<close> immediately follows the character with index \<open>i\<close> in the words wrapped with the
  boundary symbol, taken as a 32-bit integer: the cell is that number modulo \<open>2^32\<close>,
  and it equals the number itself whenever the number is below \<open>2^31\<close>.
\<close>

theorem count_table_cells:
  assumes "counter ws = Inr M" and "i < 27" and "j < 27"
  shows "M ! i ! j = of_nat (bigram_count (stoi ws) ws i j)
    \<and> (bigram_count (stoi ws) ws i j < 2 ^ 31
        \<longrightarrow> sint (M ! i ! j) = int (bigram_count (stoi ws) ws i j))"
  using counter_cells(2) [OF assms] by (simp add: sint_of_nat_small)

text \<open>
  In the corpus \<open>emma, olivia\<close> exactly one word starts with \<open>e\<close>, whose index is 2.
\<close>

theorem count_table_cells_witness:
  "counter [''emma'', ''olivia''] = Inr (projr (counter [''emma'', ''olivia'']))
   \<and> getitem (stoi [''emma'', ''olivia'']) (CHR ''e'') = Inr 2
   \<and> bigram_count (stoi [''emma'', ''olivia'']) [''emma'', ''olivia''] 0 2 = 1
   \<and> sint (projr (counter [''emma'', ''olivia'']) ! 0 ! 2) = 1"
proof -
  have run: "counter [''emma'', ''olivia''] = Inr (projr (counter [''emma'', ''olivia'']))"
    by code_simp
  have e: "getitem (stoi [''emma'', ''olivia'']) (CHR ''e'') = Inr 2"
    by code_simp
  have c: "bigram_count (stoi [''emma'', ''olivia'']) [''emma'', ''olivia''] 0 2 = 1"
    by code_simp
  from count_table_cells [OF run, of 0 2] c
  have "sint (projr (counter [''emma'', ''olivia'']) ! 0 ! 2) = 1" by simp
  with run e c show ?thesis by blast
qed

text \<open>
  A corpus of \<open>2^31\<close> empty lines has \<open>2^31\<close> transitions from the boundary symbol to
  itself, and the counting pass leaves \<open>-2^31\<close> in cell \<open>[0, 0]\<close>.
\<close>

theorem count_table_cells_counterexample:
  "counter (replicate (2 ^ 31) []) = Inr ((zeros 27 27)[0 := (replicate 27 0)[0 := 2 ^ 31]])
   \<and> sint ((zeros 27 27)[0 := (replicate 27 0)[0 := (2 ^ 31 :: int32)]] ! 0 ! 0) = - (2 ^ 31)
   \<and> bigram_count (stoi (replicate (2 ^ 31) [])) (replicate (2 ^ 31) []) 0 0 = 2 ^ 31"
proof -
  have "counter (replicate (2 ^ 31) []) = Inr ((zeros 27 27)[0 := (replicate 27 0)[0 := 2 ^ 31]])"
    using counter_empties [of "2 ^ 31"] by simp
  moreover have "sint ((zeros 27 27)[0 := (replicate 27 0)[0 := (2 ^ 31 :: int32)]] ! 0 ! 0) = - (2 ^ 31)"
    by (simp add: zeros_def)
  ultimately show ?thesis by (simp only: bigram_count_empties)
qed

subsection \<open>C2: the sum of the count table\<close>

text \<open>
  C2. For every corpus on which the counting pass finishes and in which no pair of
  indices is counted \<open>2^31\<close> times or more, the sum of all cells of the count table
  is the number of characters of all words plus the number of words, that is the sum
  of \<open>length w + 1\<close> over the words.
\<close>

theorem count_table_total:
  assumes "counter ws = Inr M"
    and "\<forall>i<27. \<forall>j<27. bigram_count (stoi ws) ws i j < 2 ^ 31"
  shows "total M = int (transitions ws) \<and> transitions ws = length (concat ws) + length ws"
  using counter_total [OF assms] by (simp add: transitions_chars)

theorem count_table_total_witness:
  "counter [''ab'', ''cde''] = Inr (projr (counter [''ab'', ''cde'']))
   \<and> total (projr (counter [''ab'', ''cde''])) = 7
   \<and> length (concat [''ab'', ''cde'']) + length [''ab'', ''cde''] = 7"
proof -
  have run: "counter [''ab'', ''cde''] = Inr (projr (counter [''ab'', ''cde'']))"
    by code_simp
  have t: "transitions [''ab'', ''cde''] = 7"
    by code_simp
  have small: "\<forall>i<27. \<forall>j<27. bigram_count (stoi [''ab'', ''cde'']) [''ab'', ''cde''] i j < 2 ^ 31"
  proof (intro allI impI)
    fix i j :: nat
    have "bigram_count (stoi [''ab'', ''cde'']) [''ab'', ''cde''] i j \<le> 7"
      using bigram_count_le [of "stoi [''ab'', ''cde'']" "[''ab'', ''cde'']" i j] by (simp only: t)
    then show "bigram_count (stoi [''ab'', ''cde'']) [''ab'', ''cde''] i j < 2 ^ 31" by simp
  qed
  from count_table_total [OF run small] t run show ?thesis by simp
qed

text \<open>
  For \<open>2^31\<close> empty lines the sum of \<open>length w + 1\<close> is \<open>2^31\<close>, and the cells of the
  table sum to \<open>-2^31\<close>.
\<close>

theorem count_table_total_counterexample:
  "counter (replicate (2 ^ 31) []) = Inr ((zeros 27 27)[0 := (replicate 27 0)[0 := 2 ^ 31]])
   \<and> total ((zeros 27 27)[0 := (replicate 27 0)[0 := 2 ^ 31]]) = - (2 ^ 31)
   \<and> int (transitions (replicate (2 ^ 31) [])) = 2 ^ 31"
proof -
  have "counter (replicate (2 ^ 31) []) = Inr ((zeros 27 27)[0 := (replicate 27 0)[0 := 2 ^ 31]])"
    using counter_empties [of "2 ^ 31"] by simp
  moreover have "total ((zeros 27 27)[0 := (replicate 27 0)[0 := 2 ^ 31]]) = - (2 ^ 31)"
    by code_simp
  ultimately show ?thesis by (simp only: transitions_empties) simp
qed

subsection \<open>C3: the vocabulary\<close>

text \<open>
  C3. The character-to-index dictionary \<open>stoi\<close> and the index-to-character dictionary
  \<open>itos\<close> are mutually inverse: \<open>stoi[c] = i\<close> exactly when \<open>itos[i] = c\<close>; every
  character of the corpus and the boundary symbol has an index that \<open>itos\<close> maps back to
  it, and every assigned index has a character that \<open>stoi\<close> maps back to it.
\<close>

theorem vocabulary_bijection:
  "(getitem (stoi ws) c = Inr i \<longleftrightarrow> getitem (itos ws) i = Inr c)
   \<and> (\<forall>x \<in> insert (CHR ''.'') (set (concat ws)).
        \<exists>k. getitem (stoi ws) x = Inr k \<and> getitem (itos ws) k = Inr x)
   \<and> (\<forall>k \<in> snd ` set (stoi ws).
        \<exists>x. getitem (itos ws) k = Inr x \<and> getitem (stoi ws) x = Inr k)
   \<and> fst ` set (stoi ws) = insert (CHR ''.'') (set (concat ws))
   \<and> fst ` set (itos ws) = snd ` set (stoi ws)"
proof -
  have inv: "\<And>x k. getitem (stoi ws) x = Inr k \<longleftrightarrow> getitem (itos ws) k = Inr x"
    by (simp add: getitem_stoi_mem getitem_itos_mem)
  have fwd: "\<forall>x \<in> insert (CHR ''.'') (set (concat ws)).
        \<exists>k. getitem (stoi ws) x = Inr k \<and> getitem (itos ws) k = Inr x"
  proof
    fix x assume "x \<in> insert (CHR ''.'') (set (concat ws))"
    then have "x \<in> fst ` set (stoi ws)" by (simp only: keys_stoi)
    then obtain k where "(x, k) \<in> set (stoi ws)" by force
    then show "\<exists>k. getitem (stoi ws) x = Inr k \<and> getitem (itos ws) k = Inr x"
      by (auto simp: getitem_stoi_mem getitem_itos_mem)
  qed
  have bwd: "\<forall>k \<in> snd ` set (stoi ws).
        \<exists>x. getitem (itos ws) k = Inr x \<and> getitem (stoi ws) x = Inr k"
    by (force simp: getitem_stoi_mem getitem_itos_mem)
  have "fst ` set (itos ws) = snd ` set (stoi ws)"
    by (force simp: itos_swap)
  with inv fwd bwd keys_stoi show ?thesis by blast
qed

theorem vocabulary_bijection_witness:
  "CHR ''e'' \<in> insert (CHR ''.'') (set (concat [''emma'', ''olivia'']))
   \<and> getitem (stoi [''emma'', ''olivia'']) (CHR ''e'') = Inr 2
   \<and> getitem (itos [''emma'', ''olivia'']) 2 = Inr (CHR ''e'')
   \<and> 0 \<in> snd ` set (stoi [''emma'', ''olivia''])
   \<and> (\<exists>x. getitem (itos [''emma'', ''olivia'']) 0 = Inr x
        \<and> getitem (stoi [''emma'', ''olivia'']) x = Inr 0)
   \<and> getitem (itos [''emma'', ''olivia'']) 0 = Inr (CHR ''.'')
   \<and> getitem (stoi [''emma'', ''olivia'']) (CHR ''.'') = Inr 0"
proof -
  have e: "getitem (stoi [''emma'', ''olivia'']) (CHR ''e'') = Inr 2"
    by code_simp
  have m: "CHR ''e'' \<in> insert (CHR ''.'') (set (concat [''emma'', ''olivia'']))"
    by simp
  have z: "0 \<in> snd ` set (stoi [''emma'', ''olivia''])"
    by code_simp
  have fwd: "\<forall>x \<in> insert (CHR ''.'') (set (concat [''emma'', ''olivia''])).
      \<exists>k. getitem (stoi [''emma'', ''olivia'']) x = Inr k
        \<and> getitem (itos [''emma'', ''olivia'']) k = Inr x"
    by (rule conjunct1 [OF conjunct2 [OF vocabulary_bijection]])
  have bwd: "\<forall>k \<in> snd ` set (stoi [''emma'', ''olivia'']).
      \<exists>x. getitem (itos [''emma'', ''olivia'']) k = Inr x
        \<and> getitem (stoi [''emma'', ''olivia'']) x = Inr k"
    by (rule conjunct1 [OF conjunct2 [OF conjunct2 [OF vocabulary_bijection]]])
  from bspec [OF fwd m] obtain k where
    k: "getitem (stoi [''emma'', ''olivia'']) (CHR ''e'') = Inr k"
       "getitem (itos [''emma'', ''olivia'']) k = Inr (CHR ''e'')"
    by blast
  from k(1) e have "k = 2" by simp
  with k(2) have e_inv: "getitem (itos [''emma'', ''olivia'']) 2 = Inr (CHR ''e'')" by simp
  note some = bspec [OF bwd z]
  have b: "getitem (stoi [''emma'', ''olivia'']) (CHR ''.'') = Inr 0"
    by code_simp
  have "getitem (stoi [''emma'', ''olivia'']) (CHR ''.'') = Inr 0
      \<longleftrightarrow> getitem (itos [''emma'', ''olivia'']) 0 = Inr (CHR ''.'')"
    by (rule conjunct1 [OF vocabulary_bijection])
  with b have zero: "getitem (itos [''emma'', ''olivia'']) 0 = Inr (CHR ''.'')"
    by (rule iffD1 [rotated])
  from m e e_inv z some zero b show ?thesis by (intro conjI)
qed

subsection \<open>C4: the probability row\<close>

text \<open>
  C4. For every non-empty corpus on which the counting pass and the drawing loop
  finish and in which no count of row 0 reaches \<open>2^31\<close>, the run produces a
  probability vector, and in whatever order the 27 entries of the row are added in
  single precision, the vector has 27 finite, non-negative entries whose exact sum
  is within \<open>2^-19\<close> of 1; when the counts of row 0 sum to at most \<open>2^24\<close>, so that
  the conversion and the sum are exact, it is within \<open>2^-24\<close> of 1.
\<close>

theorem probability_row_sum:
  assumes "counter ws = Inr M" and "draw (itos ws) M = Inr texts" and "ws \<noteq> []"
    and "\<forall>j<27. bigram_count (stoi ws) ws 0 j < 2 ^ 31"
  shows "script ws \<noteq> {}
    \<and> (\<forall>r\<in>script ws. \<exists>ps. r = Inr (map Finite ps) \<and> length ps = 27
          \<and> (\<forall>j<27. 0 \<le> ps ! j)
          \<and> \<bar>sum_list ps - 1\<bar> \<le> 1 / 2 ^ 19
          \<and> ((\<Sum>j\<leftarrow>[0..<27]. bigram_count (stoi ws) ws 0 j) \<le> 2 ^ 24
                \<longrightarrow> \<bar>sum_list ps - 1\<bar> \<le> 1 / 2 ^ 24))"
proof (intro conjI ballI)
  show "script ws \<noteq> {}" by (rule script_row(1) [OF assms])
next
  fix r assume r: "r \<in> script ws"
  with script_row(2) [OF assms] obtain ps where ps: "r = Inr (map Finite ps)" "length ps = 27"
    "\<bar>sum_list ps - 1\<bar> \<le> 1 / 2 ^ 19" "\<forall>j<27. 0 \<le> ps ! j"
    by blast
  have "\<bar>sum_list ps - 1\<bar> \<le> 1 / 2 ^ 24"
    if small: "(\<Sum>j\<leftarrow>[0..<27]. bigram_count (stoi ws) ws 0 j) \<le> 2 ^ 24"
  proof -
    from script_row_small [OF assms(1-3) small] r obtain qs where
      qs: "r = Inr (map Finite qs)" "\<bar>sum_list qs - 1\<bar> \<le> 1 / 2 ^ 24" by blast
    from ps(1) qs(1) have "map Finite ps = map Finite qs" by simp
    then have "ps = qs" by (rule finite_vector)
    with qs(2) show ?thesis by simp
  qed
  with ps show "\<exists>ps. r = Inr (map Finite ps) \<and> length ps = 27
          \<and> (\<forall>j<27. 0 \<le> ps ! j)
          \<and> \<bar>sum_list ps - 1\<bar> \<le> 1 / 2 ^ 19
          \<and> ((\<Sum>j\<leftarrow>[0..<27]. bigram_count (stoi ws) ws 0 j) \<le> 2 ^ 24
                \<longrightarrow> \<bar>sum_list ps - 1\<bar> \<le> 1 / 2 ^ 24)"
    by blast
qed

text \<open>
  The corpus of the two lines \<open>abcdefghijklmnopqrstuvwxyz\<close> and \<open>emma\<close> has 26 distinct
  letters, so the drawing loop finds every key; one word starts with \<open>a\<close> and one
  with \<open>e\<close>, and the vector is \<open>1/2\<close> at indices 1 and 5 and zero elsewhere.
\<close>

theorem probability_row_sum_witness:
  "counter [''abcdefghijklmnopqrstuvwxyz'', ''emma'']
     = Inr (projr (counter [''abcdefghijklmnopqrstuvwxyz'', ''emma'']))
   \<and> draw (itos [''abcdefghijklmnopqrstuvwxyz'', ''emma''])
       (projr (counter [''abcdefghijklmnopqrstuvwxyz'', ''emma'']))
     = Inr (projr (draw (itos [''abcdefghijklmnopqrstuvwxyz'', ''emma''])
         (projr (counter [''abcdefghijklmnopqrstuvwxyz'', ''emma'']))))
   \<and> script [''abcdefghijklmnopqrstuvwxyz'', ''emma'']
     = {Inr (map Finite ([0, 1 / 2, 0, 0, 0, 1 / 2] @ replicate 21 0))}
   \<and> \<bar>sum_list ([0, 1 / 2, 0, 0, 0, 1 / 2] @ replicate 21 (0 :: rat)) - 1\<bar> \<le> 1 / 2 ^ 24"
proof -
  let ?ws = "[''abcdefghijklmnopqrstuvwxyz'', ''emma'']"
  let ?M = "projr (counter ?ws)"
  let ?qs = "[0, 1 / 2, 0, 0, 0, 1 / 2] @ replicate 21 (0 :: rat)"
  have run: "counter ?ws = Inr ?M"
    by (rule isInr_projr) code_simp
  have drawn: "draw (itos ?ws) ?M = Inr (projr (draw (itos ?ws) ?M))"
    by (rule isInr_projr) code_simp
  have ne: "?ws \<noteq> []" by simp
  have t: "transitions ?ws = 32"
    by code_simp
  have small: "\<forall>j<27. bigram_count (stoi ?ws) ?ws 0 j < 2 ^ 31"
  proof (intro allI impI)
    fix j :: nat
    have "bigram_count (stoi ?ws) ?ws 0 j \<le> 32"
      using bigram_count_le [of "stoi ?ws" ?ws 0 j] by (simp only: t)
    then show "bigram_count (stoi ?ws) ?ws 0 j < 2 ^ 31" by simp
  qed
  have "(\<Sum>j\<leftarrow>[0..<27]. bigram_count (stoi ?ws) ?ws 0 j) = 2"
    by code_simp
  then have exact: "(\<Sum>j\<leftarrow>[0..<27]. bigram_count (stoi ?ws) ?ws 0 j) \<le> 2 ^ 24"
    by (simp only:) simp
  have s: "script ?ws = {Inr (map Finite ?qs)}" by (rule script_two)
  then have "Inr (map Finite ?qs) \<in> script ?ws" by simp
  with probability_row_sum [OF run drawn ne small] exact obtain ps where
    ps: "Inr (map Finite ?qs) = (Inr (map Finite ps) :: error + float32 list)"
      "\<bar>sum_list ps - 1\<bar> \<le> 1 / 2 ^ 24"
    by blast
  from ps(1) have "map Finite ?qs = map Finite ps" by simp
  then have "?qs = ps" by (rule finite_vector)
  with ps(2) have "\<bar>sum_list ?qs - 1\<bar> \<le> 1 / 2 ^ 24" by (simp only:)
  with run drawn s show ?thesis by (intro conjI)
qed

text \<open>
  The line \<open>abcdefghijklmnopqrstuvwxyz\<close> followed by \<open>2^32 - 1\<close> empty lines: the
  drawing loop finishes, cell \<open>[0, 0]\<close> has wrapped to \<open>-1\<close> and cell \<open>[0, 1]\<close> is 1,
  so row 0 sums to zero and the vector is minus infinity, infinity and 25 times
  not-a-number. The two lines \<open>emma\<close> and \<open>olivia\<close>: the corpus is not empty and the
  run stops in the drawing loop with a \<open>KeyError\<close>, before the extractor.
\<close>

theorem probability_row_sum_counterexample:
  "''abcdefghijklmnopqrstuvwxyz'' # replicate (2 ^ 32 - 1) [] \<noteq> []
   \<and> script (''abcdefghijklmnopqrstuvwxyz'' # replicate (2 ^ 32 - 1) [])
       = {Inr (NegInf # PosInf # replicate 25 NaN)}
   \<and> [''emma'', ''olivia''] \<noteq> []
   \<and> script [''emma'', ''olivia''] = {Inl KeyError}"
proof -
  have "''abcdefghijklmnopqrstuvwxyz'' # replicate (2 ^ 32 - 1) [] \<noteq> []"
    by (rule list.distinct)
  moreover have "[''emma'', ''olivia''] \<noteq> []" by (rule list.distinct)
  ultimately show ?thesis
    using script_wrapped_minus script_emma by (intro conjI)
qed

subsection \<open>C5: errors of the counting pass\<close>

text \<open>
  C5. Every character that is counted, the boundary symbol included, has an index
  before counting starts, so the counting pass never fails on a missing key. The
  count table has 27 rows and 27 columns whatever the corpus is; for every corpus
  with at most 26 distinct characters every access of the counter is within the table
  and the pass finishes with a 27 by 27 table.
\<close>

theorem counter_bounds:
  "(\<forall>w\<in>set ws. \<forall>x\<in>set (wrapped w). \<exists>a. getitem (stoi ws) x = Inr a)
   \<and> counter ws \<noteq> Inl KeyError
   \<and> (length (chars ws) \<le> 26
        \<longrightarrow> (\<exists>M. counter ws = Inr M \<and> length M = 27 \<and> (\<forall>row\<in>set M. length row = 27)))"
proof (intro conjI impI ballI)
  fix w x assume "w \<in> set ws" "x \<in> set (wrapped w)"
  with corpus_known [of ws] have "known (stoi ws) x" by blast
  then show "\<exists>a. getitem (stoi ws) x = Inr a" by (auto elim: knownE)
next
  show "counter ws \<noteq> Inl KeyError" by (rule counter_no_key_error)
next
  assume "length (chars ws) \<le> 26"
  then obtain M where M: "counter ws = Inr M"
    using counter_few_chars by blast
  from counter_cells(1) [OF M] have "length M = 27 \<and> (\<forall>row\<in>set M. length row = 27)"
    by (simp add: shaped_def list_all_iff)
  with M show "\<exists>M. counter ws = Inr M \<and> length M = 27 \<and> (\<forall>row\<in>set M. length row = 27)"
    by blast
qed

theorem counter_bounds_witness:
  "''olivia'' \<in> set [''emma'', ''olivia'']
   \<and> CHR ''v'' \<in> set (wrapped ''olivia'')
   \<and> (\<exists>a. getitem (stoi [''emma'', ''olivia'']) (CHR ''v'') = Inr a)
   \<and> length (chars [''emma'', ''olivia'']) \<le> 26
   \<and> (\<exists>M. counter [''emma'', ''olivia''] = Inr M \<and> length M = 27
        \<and> (\<forall>row\<in>set M. length row = 27))"
proof -
  have w: "''olivia'' \<in> set [''emma'', ''olivia'']" by simp
  have x: "CHR ''v'' \<in> set (wrapped ''olivia'')" by (simp add: wrapped_def)
  have n: "length (chars [''emma'', ''olivia'']) \<le> 26" by code_simp
  note b = counter_bounds [of "[''emma'', ''olivia'']"]
  from b w x have "\<exists>a. getitem (stoi [''emma'', ''olivia'']) (CHR ''v'') = Inr a" by blast
  moreover from b n have "\<exists>M. counter [''emma'', ''olivia''] = Inr M \<and> length M = 27
        \<and> (\<forall>row\<in>set M. length row = 27)" by blast
  ultimately show ?thesis using w x n by blast
qed

text \<open>
  A word of 27 distinct characters gives \<open>z\<close> the index 27, and the counting pass
  stops with an index error.
\<close>

theorem counter_bounds_counterexample:
  "length (chars [''abcdefghijklmnopqrstuvwxyzA'']) = 27
   \<and> getitem (stoi [''abcdefghijklmnopqrstuvwxyzA'']) (CHR ''z'') = Inr 27
   \<and> counter [''abcdefghijklmnopqrstuvwxyzA''] = Inl IndexError"
  by code_simp

subsection \<open>C6: the empty corpus\<close>

text \<open>
  C6. For the empty corpus the counting pass leaves the table all zero and row 0 sums
  to zero. The index-to-character dictionary then holds the key 0 alone, the drawing
  loop raises \<open>KeyError\<close> at its first lookup of key 1, and the run stops with that
  error before the extractor: it produces no vector. The division of the extractor
  is not guarded: applied to the all-zero table it returns 27 times not-a-number and
  no error.
\<close>

theorem empty_corpus_division:
  "counter [] = Inr (zeros 27 27)
   \<and> sum_list (map sint (zeros 27 27 ! 0)) = 0
   \<and> itos [] = [(0, CHR ''.'')]
   \<and> draw (itos []) (zeros 27 27) = Inl KeyError
   \<and> script [] = {Inl KeyError}
   \<and> prob (zeros 27 27) = {Inr (replicate 27 NaN)}"
proof -
  have "sum_list (map sint (zeros 27 27 ! 0)) = 0" by code_simp
  moreover have "itos [] = [(0, CHR ''.'')]" by code_simp
  ultimately show ?thesis
    using counter_empty draw_empty script_empty prob_zeros by (intro conjI)
qed

text \<open>
  The run on the empty corpus ends with a reported error; the vector of 27 times
  not-a-number is not among its outcomes.
\<close>

theorem empty_corpus_division_counterexample:
  "script [] = {Inl KeyError} \<and> Inr (replicate 27 NaN) \<notin> script []"
  using script_empty by simp

subsection \<open>C7 and C8: two small corpora\<close>

text \<open>
  C7. For the corpus of the single word \<open>a\<close>, the boundary symbol has index 0 and
  \<open>a\<close> has index 1; the final table holds 1 in cells \<open>[0, 1]\<close> and \<open>[1, 0]\<close> and 0 in
  every other cell.
\<close>

theorem single_letter_corpus:
  "getitem (stoi [''a'']) (CHR ''.'') = Inr 0
   \<and> getitem (stoi [''a'']) (CHR ''a'') = Inr 1
   \<and> counter [''a''] =
       Inr ((zeros 27 27)[0 := (replicate 27 0)[1 := 1], 1 := (replicate 27 0)[0 := 1]])"
  by code_simp

text \<open>
  C8. For the corpus \<open>ab, ab\<close>, the boundary symbol has index 0, \<open>a\<close> index 1 and \<open>b\<close>
  index 2; the final table holds 2 in cells \<open>[0, 1]\<close>, \<open>[1, 2]\<close> and \<open>[2, 0]\<close> and 0 in
  every other cell.
\<close>

theorem repeated_word_corpus:
  "getitem (stoi [''ab'', ''ab'']) (CHR ''.'') = Inr 0
   \<and> getitem (stoi [''ab'', ''ab'']) (CHR ''a'') = Inr 1
   \<and> getitem (stoi [''ab'', ''ab'']) (CHR ''b'') = Inr 2
   \<and> counter [''ab'', ''ab''] =
       Inr ((zeros 27 27)[0 := (replicate 27 0)[1 := 2], 1 := (replicate 27 0)[2 := 2],
              2 := (replicate 27 0)[0 := 2]])"
  by code_simp

subsection \<open>C9: empty lines\<close>

text \<open>
  C9. Counting an empty line is exactly one increment of cell \<open>[0, 0]\<close>. Whenever the
  corpus contains an empty word, the counting pass and the drawing loop finish and no
  count of row 0 reaches \<open>2^31\<close>, the run produces a vector of 27 finite entries
  whose entry 0, the starting probability of the boundary symbol, is strictly
  positive, in whatever order the row is added.
\<close>

theorem empty_word_boundary:
  "count_words (stoi vs) ([] # us) N =
     (case iadd N 0 0 of Inl e \<Rightarrow> Inl e | Inr N' \<Rightarrow> count_words (stoi vs) us N')
   \<and> ([] \<in> set ws \<and> counter ws = Inr M \<and> draw (itos ws) M = Inr texts
        \<and> (\<forall>j<27. bigram_count (stoi ws) ws 0 j < 2 ^ 31)
        \<longrightarrow> script ws \<noteq> {}
          \<and> (\<forall>r\<in>script ws. \<exists>ps. r = Inr (map Finite ps) \<and> length ps = 27 \<and> 0 < ps ! 0))"
proof (intro conjI impI)
  show "count_words (stoi vs) ([] # us) N =
     (case iadd N 0 0 of Inl e \<Rightarrow> Inl e | Inr N' \<Rightarrow> count_words (stoi vs) us N')"
    by (rule count_empty_word [OF stoi_boundary])
next
  assume h: "[] \<in> set ws \<and> counter ws = Inr M \<and> draw (itos ws) M = Inr texts
    \<and> (\<forall>j<27. bigram_count (stoi ws) ws 0 j < 2 ^ 31)"
  then have mem: "[] \<in> set ws" and run: "counter ws = Inr M"
    and drawn: "draw (itos ws) M = Inr texts"
    and small: "\<forall>j<27. bigram_count (stoi ws) ws 0 j < 2 ^ 31"
    by simp_all
  from mem have ne: "ws \<noteq> []" by (cases ws) simp_all
  show "script ws \<noteq> {}" by (rule script_row(1) [OF run drawn ne small])
  have c: "0 < bigram_count (stoi ws) ws 0 0" by (rule empty_word_count [OF mem])
  show "\<forall>r\<in>script ws. \<exists>ps. r = Inr (map Finite ps) \<and> length ps = 27 \<and> 0 < ps ! 0"
  proof
    fix r assume "r \<in> script ws"
    with script_row(2) [OF run drawn ne small] obtain ps where
      ps: "r = Inr (map Finite ps)" "length ps = 27"
        "\<forall>j<27. 0 \<le> ps ! j \<and> (0 < bigram_count (stoi ws) ws 0 j \<longrightarrow> 0 < ps ! j)"
      by blast
    from ps(3) c have "0 < ps ! 0" by simp
    with ps(1,2) show "\<exists>ps. r = Inr (map Finite ps) \<and> length ps = 27 \<and> 0 < ps ! 0" by blast
  qed
qed

text \<open>
  The line \<open>abcdefghijklmnopqrstuvwxyz\<close> followed by one empty line: the vector is
  \<open>1/2\<close> at index 0 and at index 1.
\<close>

theorem empty_word_boundary_witness:
  "[] \<in> set [''abcdefghijklmnopqrstuvwxyz'', []]
   \<and> counter [''abcdefghijklmnopqrstuvwxyz'', []]
     = Inr (projr (counter [''abcdefghijklmnopqrstuvwxyz'', []]))
   \<and> draw (itos [''abcdefghijklmnopqrstuvwxyz'', []])
       (projr (counter [''abcdefghijklmnopqrstuvwxyz'', []]))
     = Inr (projr (draw (itos [''abcdefghijklmnopqrstuvwxyz'', []])
         (projr (counter [''abcdefghijklmnopqrstuvwxyz'', []]))))
   \<and> script [''abcdefghijklmnopqrstuvwxyz'', []]
     = {Inr (map Finite ([1 / 2, 1 / 2] @ replicate 25 0))}
   \<and> 0 < ([1 / 2, 1 / 2] @ replicate 25 (0 :: rat)) ! 0"
proof -
  let ?ws = "[''abcdefghijklmnopqrstuvwxyz'', []]"
  let ?M = "projr (counter ?ws)"
  let ?qs = "[1 / 2, 1 / 2] @ replicate 25 (0 :: rat)"
  have mem: "[] \<in> set ?ws" by simp
  have run: "counter ?ws = Inr ?M"
    by (rule isInr_projr) code_simp
  have drawn: "draw (itos ?ws) ?M = Inr (projr (draw (itos ?ws) ?M))"
    by (rule isInr_projr) code_simp
  have t: "transitions ?ws = 28"
    by code_simp
  have small: "\<forall>j<27. bigram_count (stoi ?ws) ?ws 0 j < 2 ^ 31"
  proof (intro allI impI)
    fix j :: nat
    have "bigram_count (stoi ?ws) ?ws 0 j \<le> 28"
      using bigram_count_le [of "stoi ?ws" ?ws 0 j] by (simp only: t)
    then show "bigram_count (stoi ?ws) ?ws 0 j < 2 ^ 31" by simp
  qed
  have s: "script ?ws = {Inr (map Finite ?qs)}" by (rule script_alphabet_empty)
  then have "Inr (map Finite ?qs) \<in> script ?ws" by simp
  with empty_word_boundary [of _ _ _ ?ws ?M "projr (draw (itos ?ws) ?M)"] mem run drawn small
  obtain ps where
    ps: "Inr (map Finite ?qs) = (Inr (map Finite ps) :: error + float32 list)" "0 < ps ! 0"
    by blast
  from ps(1) have "map Finite ?qs = map Finite ps" by simp
  then have "?qs = ps" by (rule finite_vector)
  with ps(2) have "0 < ?qs ! 0" by (simp only:)
  with mem run drawn s show ?thesis by (intro conjI)
qed

text \<open>
  The line \<open>abcdefghijklmnopqrstuvwxyz\<close> followed by \<open>2^32\<close> empty lines: the corpus
  contains an empty word, the drawing loop finishes, cell \<open>[0, 0]\<close> has wrapped to
  zero, and entry 0 of the vector is zero. The three lines \<open>a\<close>, the empty line and
  \<open>b\<close>: the run stops in the drawing loop with a \<open>KeyError\<close> and produces no vector.
\<close>

theorem empty_word_boundary_counterexample:
  "[] \<in> set (''abcdefghijklmnopqrstuvwxyz'' # replicate (2 ^ 32) [])
   \<and> script (''abcdefghijklmnopqrstuvwxyz'' # replicate (2 ^ 32) [])
       = {Inr (Finite 0 # Finite 1 # replicate 25 (Finite 0))}
   \<and> [] \<in> set [''a'', [], ''b'']
   \<and> script [''a'', [], ''b''] = {Inl KeyError}"
proof -
  have "[] \<in> set (replicate (2 ^ 32) ([] :: string))"
    by (simp only: set_replicate_conv_if) simp
  then have "[] \<in> set (''abcdefghijklmnopqrstuvwxyz'' # replicate (2 ^ 32) [])"
    by (simp only: set_simps insert_iff) blast
  moreover have "[] \<in> set [''a'', [], ''b'']" by simp
  ultimately show ?thesis
    using script_wrapped_zero script_a_empty_b by (intro conjI)
qed

subsection \<open>C10: the order of the lines\<close>

text \<open>
  C10. The outcome of the counting pass, and with it the outcome of the whole run,
  the error it stops with or the extracted vector, is the same for a corpus and
  for every reordering of its lines.
\<close>

theorem permutation_invariant:
  assumes "mset ws = mset vs"
  shows "counter ws = counter vs \<and> script ws = script vs"
proof
  show c: "counter ws = counter vs" by (rule counter_permutation [OF assms])
  have "itos ws = itos vs" by (rule itos_stoi [OF stoi_permutation [OF assms]])
  with c show "script ws = script vs" by (rule script_cong)
qed

theorem permutation_invariant_witness:
  "mset [''ab'', ''c'', []] = mset [[], ''ab'', ''c'']
   \<and> counter [''ab'', ''c'', []] = counter [[], ''ab'', ''c'']
   \<and> script [''ab'', ''c'', []] = script [[], ''ab'', ''c'']"
proof -
  have p: "mset [''ab'', ''c'', []] = mset [[], ''ab'', ''c'']" by simp
  from permutation_invariant [OF p] p show ?thesis by blast
qed

end
